theory Spec2Isabelle
  imports Complex_Main "HOL-Library.Multiset"
begin

section \<open>Strings and character classes\<close>

text \<open>
  A JavaScript string is a sequence of 16-bit code units, and the regular expressions of
  the content script (none has the \<open>u\<close> flag) work on code units. A code unit is
  modelled by its number; \<open>str\<close> turns a literal into code units.
\<close>

type_synonym unit16 = nat
type_synonym jsstring = "unit16 list"

definition str :: "string \<Rightarrow> jsstring" where
  "str s = map of_char s"

definition is_digit :: "unit16 \<Rightarrow> bool" where
  \<comment> \<open>\<open>\d\<close>, \<open>[0-9]\<close>\<close>
  "is_digit c = (48 \<le> c \<and> c \<le> 57)"

definition is_upper :: "unit16 \<Rightarrow> bool" where
  \<comment> \<open>\<open>[A-Z]\<close>\<close>
  "is_upper c = (65 \<le> c \<and> c \<le> 90)"

definition is_lower :: "unit16 \<Rightarrow> bool" where
  \<comment> \<open>\<open>[a-z]\<close>\<close>
  "is_lower c = (97 \<le> c \<and> c \<le> 122)"

definition is_alpha :: "unit16 \<Rightarrow> bool" where
  \<comment> \<open>\<open>[a-zA-Z]\<close>\<close>
  "is_alpha c = (is_lower c \<or> is_upper c)"

definition is_alnum :: "unit16 \<Rightarrow> bool" where
  \<comment> \<open>\<open>[A-Za-z0-9]\<close>\<close>
  "is_alnum c = (is_alpha c \<or> is_digit c)"

definition is_word :: "unit16 \<Rightarrow> bool" where
  \<comment> \<open>\<open>\w\<close>, the word characters that \<open>\b\<close> looks at: \<open>[A-Za-z0-9_]\<close>\<close>
  "is_word c = (is_alnum c \<or> c = 95)"

definition is_line_terminator :: "unit16 \<Rightarrow> bool" where
  \<comment> \<open>LF, CR, U+2028, U+2029\<close>
  "is_line_terminator c = (c = 10 \<or> c = 13 \<or> c = 8232 \<or> c = 8233)"

definition is_space :: "unit16 \<Rightarrow> bool" where
  \<comment> \<open>\<open>\s\<close>: white space and line terminators of ECMAScript\<close>
  "is_space c = ((9 \<le> c \<and> c \<le> 13) \<or> c = 32 \<or> c = 160 \<or> c = 5760
     \<or> (8192 \<le> c \<and> c \<le> 8202) \<or> c = 8232 \<or> c = 8233 \<or> c = 8239 \<or> c = 8287
     \<or> c = 12288 \<or> c = 65279)"

definition is_char :: "char \<Rightarrow> unit16 \<Rightarrow> bool" where
  "is_char a c = (c = of_char a)"

definition is_word_dash :: "unit16 \<Rightarrow> bool" where
  \<comment> \<open>\<open>[A-Za-z0-9_-]\<close>\<close>
  "is_word_dash c = (is_word c \<or> c = 45)"

definition is_sep :: "unit16 \<Rightarrow> bool" where
  \<comment> \<open>\<open>[\s-]\<close>, \<open>[-\s]\<close>\<close>
  "is_sep c = (is_space c \<or> c = 45)"

definition is_quote :: "unit16 \<Rightarrow> bool" where
  \<comment> \<open>\<open>["']\<close>\<close>
  "is_quote c = (c = 34 \<or> c = 39)"

definition is_assign :: "unit16 \<Rightarrow> bool" where
  \<comment> \<open>\<open>[:=]\<close>\<close>
  "is_assign c = (c = 58 \<or> c = 61)"

definition is_value_char :: "unit16 \<Rightarrow> bool" where
  \<comment> \<open>\<open>[^\s"']\<close>\<close>
  "is_value_char c = (\<not> is_space c \<and> \<not> is_quote c)"

definition is_nonspace :: "unit16 \<Rightarrow> bool" where
  \<comment> \<open>\<open>\S\<close>\<close>
  "is_nonspace c = (\<not> is_space c)"

definition is_email_local :: "unit16 \<Rightarrow> bool" where
  \<comment> \<open>\<open>[a-zA-Z0-9._%+-]\<close>\<close>
  "is_email_local c = (is_alnum c \<or> c = 46 \<or> c = 95 \<or> c = 37 \<or> c = 43 \<or> c = 45)"

definition is_email_domain :: "unit16 \<Rightarrow> bool" where
  \<comment> \<open>\<open>[a-zA-Z0-9.-]\<close>\<close>
  "is_email_domain c = (is_alnum c \<or> c = 46 \<or> c = 45)"

definition is_env_head :: "unit16 \<Rightarrow> bool" where
  \<comment> \<open>\<open>[A-Z_]\<close>\<close>
  "is_env_head c = (is_upper c \<or> c = 95)"

definition is_env_tail :: "unit16 \<Rightarrow> bool" where
  \<comment> \<open>\<open>[A-Z0-9_]\<close>\<close>
  "is_env_tail c = (is_upper c \<or> is_digit c \<or> c = 95)"

definition is_dot_any :: "unit16 \<Rightarrow> bool" where
  \<comment> \<open>\<open>.\<close> without the \<open>s\<close> flag\<close>
  "is_dot_any c = (\<not> is_line_terminator c)"

definition is_in :: "string \<Rightarrow> unit16 \<Rightarrow> bool" where
  \<comment> \<open>a class listing single characters, as \<open>[6-9]\<close> or \<open>[01]\<close> written out\<close>
  "is_in l c = (c \<in> set (str l))"

definition canonicalize :: "unit16 \<Rightarrow> unit16" where
  \<comment> \<open>Canonicalize of ECMAScript for the \<open>i\<close> flag without \<open>u\<close>: the upper case of the
      code unit, except that a code unit above 127 never maps into ASCII. The patterns
      compare only ASCII characters this way, and on those it is the upper case of a-z.\<close>
  "canonicalize c = (if is_lower c then c - 32 else c)"

section \<open>The backtracking matcher\<close>

text \<open>
  The fragment of ECMAScript regular expressions that the catalogue uses: literal text,
  a character from a class, sequence, alternation (the left alternative first), an
  optional group (greedy), a greedy quantifier \<open>{lo,hi}\<close> on a single-character class
  (\<open>hi = None\<close> for \<open>{lo,}\<close>, \<open>*\<close> and \<open>+\<close>), and the assertions \<open>\b\<close>,
  \<open>^\<close> and \<open>$\<close> of the \<open>m\<close> flag.
\<close>

datatype regex =
    Sym "unit16 \<Rightarrow> bool"
  | Lit string
  | Seq regex regex
  | Alt regex regex
  | Opt regex
  | Rep nat "nat option" "unit16 \<Rightarrow> bool"
  | WordB
  | LineStart
  | LineEnd

text \<open>
  A matcher state is the code unit before the current position (none at the start of
  the text) and the rest of the text. The matcher returns the states it can end in, in
  the order in which backtracking tries them: the head is what the engine finds.
\<close>

type_synonym mstate = "unit16 option \<times> jsstring"

fun lit :: "bool \<Rightarrow> jsstring \<Rightarrow> unit16 option \<Rightarrow> jsstring \<Rightarrow> mstate list" where
  "lit ic [] prev s = [(prev, s)]"
| "lit ic (a # as) prev [] = []"
| "lit ic (a # as) prev (c # cs) =
     (if (if ic then canonicalize a = canonicalize c else a = c)
      then lit ic as (Some c) cs else [])"

fun rep :: "nat \<Rightarrow> nat option \<Rightarrow> (unit16 \<Rightarrow> bool) \<Rightarrow> unit16 option \<Rightarrow> jsstring \<Rightarrow> mstate list" where
  "rep lo hi P prev [] = (if lo = 0 then [(prev, [])] else [])"
| "rep lo hi P prev (c # cs) =
     (if hi \<noteq> Some 0 \<and> P c
      then rep (lo - 1) (map_option (\<lambda>h. h - 1) hi) P (Some c) cs else [])
     @ (if lo = 0 then [(prev, c # cs)] else [])"

definition word_before :: "unit16 option \<Rightarrow> bool" where
  "word_before prev = (case prev of None \<Rightarrow> False | Some c \<Rightarrow> is_word c)"

definition word_after :: "jsstring \<Rightarrow> bool" where
  "word_after s = (case s of [] \<Rightarrow> False | c # _ \<Rightarrow> is_word c)"

definition line_start :: "unit16 option \<Rightarrow> bool" where
  "line_start prev = (case prev of None \<Rightarrow> True | Some c \<Rightarrow> is_line_terminator c)"

definition line_end :: "jsstring \<Rightarrow> bool" where
  "line_end s = (case s of [] \<Rightarrow> True | c # _ \<Rightarrow> is_line_terminator c)"

fun sym :: "(unit16 \<Rightarrow> bool) \<Rightarrow> jsstring \<Rightarrow> mstate list" where
  "sym P [] = []"
| "sym P (c # cs) = (if P c then [(Some c, cs)] else [])"

fun matcher :: "bool \<Rightarrow> regex \<Rightarrow> unit16 option \<Rightarrow> jsstring \<Rightarrow> mstate list" where
  "matcher ic (Sym P) prev s = sym P s"
| "matcher ic (Lit l) prev s = lit ic (str l) prev s"
| "matcher ic (Seq r1 r2) prev s = concat (map (\<lambda>(p, t). matcher ic r2 p t) (matcher ic r1 prev s))"
| "matcher ic (Alt r1 r2) prev s = matcher ic r1 prev s @ matcher ic r2 prev s"
| "matcher ic (Opt r) prev s = matcher ic r prev s @ [(prev, s)]"
| "matcher ic (Rep lo hi P) prev s = rep lo hi P prev s"
| "matcher ic WordB prev s = (if word_before prev \<noteq> word_after s then [(prev, s)] else [])"
| "matcher ic LineStart prev s = (if line_start prev then [(prev, s)] else [])"
| "matcher ic LineEnd prev s = (if line_end s then [(prev, s)] else [])"

text \<open>
  A RegExp object: the expression, its \<open>i\<close> flag, and the mutable \<open>lastIndex\<close>
  that \<open>exec\<close> reads and writes when the expression has the \<open>g\<close> flag (every
  pattern of the catalogue has it; the \<open>m\<close> flag is in the meaning of
  \<open>LineStart\<close> and \<open>LineEnd\<close>). \<open>RegExp\<close> is \<open>new RegExp(source, flags)\<close>: a fresh
  object, \<open>lastIndex\<close> 0.
\<close>

record regexp =
  source :: regex
  ignoreCase :: bool
  lastIndex :: nat

definition RegExp :: "regex \<Rightarrow> bool \<Rightarrow> regexp" where
  "RegExp r i = \<lparr>source = r, ignoreCase = i, lastIndex = 0\<rparr>"

text \<open>
  \<open>regex.exec(text)\<close> with the \<open>g\<close> flag tries each start position from
  \<open>lastIndex\<close> to the end of the text, the end included, and returns the first match:
  the matched text \<open>match[0]\<close> and the state after it, where the next call starts.
\<close>

definition match_here :: "regexp \<Rightarrow> unit16 option \<Rightarrow> jsstring \<Rightarrow> (jsstring \<times> mstate) option" where
  "match_here re prev s =
     (case matcher (ignoreCase re) (source re) prev s of
        [] \<Rightarrow> None
      | (p, t) # _ \<Rightarrow> Some (take (length s - length t) s, (p, t)))"

fun exec :: "regexp \<Rightarrow> unit16 option \<Rightarrow> jsstring \<Rightarrow> (jsstring \<times> mstate) option" where
  "exec re prev [] = match_here re prev []"
| "exec re prev (c # cs) =
     (case match_here re prev (c # cs) of
        Some r \<Rightarrow> Some r
      | None \<Rightarrow> exec re (Some c) cs)"

lemma match_here_shorter:
  "match_here re prev s = Some (mt, (p, t)) \<Longrightarrow> mt \<noteq> [] \<Longrightarrow> length t < length s"
  by (auto simp: match_here_def split: list.splits)

lemma exec_shorter:
  "exec re prev s = Some (mt, (p, t)) \<Longrightarrow> mt \<noteq> [] \<Longrightarrow> length t < length s"
proof (induction s arbitrary: prev)
  case Nil
  then show ?case by (auto dest: match_here_shorter)
next
  case (Cons c cs)
  show ?case
  proof (cases "match_here re prev (c # cs)")
    case None
    with Cons.prems have "exec re (Some c) cs = Some (mt, (p, t))" by simp
    from Cons.IH [OF this Cons.prems(2)] show ?thesis by simp
  next
    case (Some r)
    with Cons.prems show ?thesis by (auto dest: match_here_shorter)
  qed
qed

text \<open>
  \<open>while ((match = regex.exec(text)) !== null)\<close>: the matches in the order the loop
  sees them, from the state at \<open>lastIndex\<close> on. A match of the empty string leaves
  \<open>lastIndex\<close> where it is, so the loop of the source would find it again and never
  end: the value is then \<open>None\<close>.
\<close>

function exec_loop :: "regexp \<Rightarrow> unit16 option \<Rightarrow> jsstring \<Rightarrow> jsstring list option" where
  "exec_loop re prev s =
     (case exec re prev s of
        None \<Rightarrow> Some []
      | Some (mt, (p, t)) \<Rightarrow>
          if mt = [] then None else map_option ((#) mt) (exec_loop re p t))"
  by pat_completeness auto
termination
  by (relation "measure (\<lambda>(re, prev, s). length s)") (auto dest: exec_shorter)

declare exec_loop.simps [simp del]

definition exec_all :: "regexp \<Rightarrow> jsstring \<Rightarrow> jsstring list option" where
  \<comment> \<open>the loop on the object \<open>re\<close>: the first \<open>exec\<close> starts at its \<open>lastIndex\<close>, and
      fails at once when that is beyond the end of the text\<close>
  "exec_all re text =
     (let i = lastIndex re
      in if i > length text then Some []
         else exec_loop re (if i = 0 then None else Some (text ! (i - 1))) (drop i text))"

definition test :: "regexp \<Rightarrow> jsstring \<Rightarrow> bool" where
  \<comment> \<open>\<open>regex.test(text)\<close> of an expression without the \<open>g\<close> flag: the search starts at
      the beginning of the text, whatever \<open>lastIndex\<close> is\<close>
  "test re s = (exec re None s \<noteq> None)"

section \<open>The pattern catalogue\<close>

datatype category =
    API_KEY | PRIVATE_KEY | PASSWORD | CREDIT_CARD | SSN
  | BULK_EMAIL | INTERNAL_IP | JWT | ENV_FILE | CONNECTION_STRING

fun CATEGORIES :: "category \<Rightarrow> string" where
  "CATEGORIES API_KEY = ''API keys''"
| "CATEGORIES PRIVATE_KEY = ''Private keys''"
| "CATEGORIES PASSWORD = ''Passwords''"
| "CATEGORIES CREDIT_CARD = ''Credit cards''"
| "CATEGORIES SSN = ''Social Security Numbers''"
| "CATEGORIES BULK_EMAIL = ''Bulk email addresses''"
| "CATEGORIES INTERNAL_IP = ''Internal IP addresses''"
| "CATEGORIES JWT = ''JWT tokens''"
| "CATEGORIES ENV_FILE = ''.env file contents''"
| "CATEGORIES CONNECTION_STRING = ''Connection strings''"

subsection \<open>luhnCheck\<close>

text \<open>
  The loop of \<open>luhnCheck\<close> runs over the digits from the last to the first, so the
  function below takes them reversed; \<open>parseInt\<close> of a digit is its code minus 48.
\<close>

fun luhn_loop :: "jsstring \<Rightarrow> bool \<Rightarrow> nat \<Rightarrow> nat" where
  "luhn_loop [] isEven acc = acc"
| "luhn_loop (c # cs) isEven acc =
     (let digit = c - 48;
          digit = (if isEven then (if digit * 2 > 9 then digit * 2 - 9 else digit * 2) else digit)
      in luhn_loop cs (\<not> isEven) (acc + digit))"

definition luhnCheck :: "jsstring \<Rightarrow> bool" where
  "luhnCheck numStr =
     (let digits = filter is_digit numStr
      in if length digits < 13 \<or> length digits > 19 then False
         else luhn_loop (rev digits) False 0 mod 10 = 0)"

subsection \<open>PATTERNS\<close>

fun seqs :: "regex list \<Rightarrow> regex" where
  "seqs [] = Lit []"
| "seqs [r] = r"
| "seqs (r # rs) = Seq r (seqs rs)"

fun alts :: "regex list \<Rightarrow> regex" where
  "alts [] = Lit []"
| "alts [r] = r"
| "alts (r # rs) = Alt r (alts rs)"

definition digit_run :: "nat \<Rightarrow> regex" where
  \<comment> \<open>\<open>\d{n}\<close>\<close>
  "digit_run n = Rep n (Some n) is_digit"

definition octet :: regex where
  \<comment> \<open>\<open>\d{1,3}\<close>\<close>
  "octet = Rep 1 (Some 3) is_digit"

definition spaces1 :: regex where
  \<comment> \<open>\<open>\s+\<close>\<close>
  "spaces1 = Rep 1 None is_space"

definition spaces0 :: regex where
  \<comment> \<open>\<open>\s*\<close>\<close>
  "spaces0 = Rep 0 None is_space"

definition re_api_key :: regex where
  "re_api_key = seqs [WordB,
     alts [Lit ''AKIA'', Lit ''ghp_'', Lit ''gho_'', Lit ''ghu_'', Lit ''ghs_'', Lit ''ghr_'',
           Lit ''sk_live_'', Lit ''sk_test_'', Lit ''pk_live_'', Lit ''pk_test_'',
           Seq (Lit ''sk-'') (Rep 20 None is_alnum),
           Seq (Lit ''AIza'') (Rep 35 (Some 35) is_word_dash),
           Seq (Lit ''openai-'') (Rep 48 (Some 48) is_alnum)],
     WordB]"

definition re_private_key :: regex where
  "re_private_key = seqs [Lit ''-----BEGIN'', spaces1,
     Opt (Seq (Lit ''RSA'') spaces1), Opt (Seq (Lit ''DSA'') spaces1),
     Opt (Seq (Lit ''EC'') spaces1), Opt (Seq (Lit ''OPENSSH'') spaces1),
     Opt (Seq (Lit ''PGP'') spaces1), Lit ''PRIVATE KEY-----'']"

definition re_password_assign :: regex where
  "re_password_assign = seqs [WordB,
     alts [Lit ''password'', Lit ''pwd'', Lit ''passwd'', Lit ''secret''],
     spaces0, Sym is_assign, spaces0, Rep 0 (Some 1) is_quote,
     Rep 6 None is_value_char, Rep 0 (Some 1) is_quote]"

definition re_password_word :: regex where
  "re_password_word = seqs [WordB, Lit ''password'', spaces0, Rep 0 (Some 1) is_assign,
     spaces0, Rep 6 None is_nonspace]"

definition re_card_plain :: regex where
  "re_card_plain = seqs [WordB, Rep 13 (Some 19) is_digit, WordB]"

definition re_card_spaced :: regex where
  "re_card_spaced = seqs [WordB, digit_run 4, Sym is_space, digit_run 4, Sym is_space, digit_run 4,
     Sym is_space, digit_run 4, WordB]"

definition re_card_dashed :: regex where
  "re_card_dashed = seqs [WordB, digit_run 4, Lit ''-'', digit_run 4, Lit ''-'', digit_run 4,
     Lit ''-'', digit_run 4, WordB]"

definition re_card_amex :: regex where
  "re_card_amex = seqs [WordB, digit_run 4, Sym is_sep, digit_run 6, Sym is_sep, digit_run 5, WordB]"

definition re_ssn :: regex where
  "re_ssn = seqs [WordB, digit_run 3, Rep 0 (Some 1) is_sep, digit_run 2, Rep 0 (Some 1) is_sep,
     digit_run 4, WordB]"

definition re_email :: regex where
  "re_email = seqs [Rep 1 None is_email_local, Lit ''@'', Rep 1 None is_email_domain,
     Lit ''.'', Rep 2 None is_alpha]"

definition re_internal_ip :: regex where
  "re_internal_ip = seqs [WordB,
     alts [seqs [Lit ''10.'', octet, Lit ''.'', octet, Lit ''.'', octet],
           seqs [Lit ''192.168.'', octet, Lit ''.'', octet],
           seqs [Lit ''172.'',
                 alts [Seq (Lit ''1'') (Sym (is_in ''6789'')), Seq (Lit ''2'') (Sym is_digit),
                       Seq (Lit ''3'') (Sym (is_in ''01''))],
                 Lit ''.'', octet, Lit ''.'', octet]],
     WordB]"

definition re_jwt :: regex where
  "re_jwt = seqs [WordB, Lit ''eyJ'', Rep 0 None is_word_dash, Lit ''.eyJ'',
     Rep 0 None is_word_dash, Lit ''.'', Rep 1 None is_word_dash, WordB]"

definition re_env_line :: regex where
  "re_env_line = seqs [LineStart, Sym is_env_head, Rep 0 None is_env_tail, spaces0, Lit ''='',
     spaces0, Rep 1 None is_dot_any, LineEnd]"

definition re_connection_string :: regex where
  "re_connection_string = seqs [WordB,
     alts [Lit ''mongodb'', Lit ''postgres'', Lit ''mysql'', Lit ''redis''],
     Lit ''://'', Rep 1 None is_value_char]"

definition re_env_sensitive :: regex where
  \<comment> \<open>the expression inside the validator of the .env rule\<close>
  "re_env_sensitive =
     alts [Lit ''API_KEY'', Lit ''SECRET'', Lit ''PASSWORD'', Lit ''TOKEN'', Lit ''PRIVATE'']"

text \<open>
  A validator takes the match, all matches (the scanner passes \<open>null\<close>) and the text
  (\<open>undefined\<close> when the scanner passes two arguments). Its value is \<open>None\<close> where the
  JavaScript throws a TypeError: \<open>.length\<close> of \<open>null\<close>, \<open>.includes\<close> of
  \<open>undefined\<close>.
\<close>

type_synonym validator = "jsstring \<Rightarrow> jsstring list option \<Rightarrow> jsstring option \<Rightarrow> bool option"

definition validate_luhn :: validator where
  "validate_luhn mt allMatches text = Some (luhnCheck mt)"

definition validate_bulk :: validator where
  "validate_bulk mt allMatches text = map_option (\<lambda>a. length a \<ge> 3) allMatches"

definition validate_env :: validator where
  "validate_env mt allMatches text =
     map_option (\<lambda>t. of_char CHR ''='' \<in> set t
        \<and> test (RegExp re_env_sensitive True) t) text"

record pattern =
  name :: category
  regex :: regexp
  validate :: "validator option"

definition rule :: "category \<Rightarrow> regex \<Rightarrow> bool \<Rightarrow> validator option \<Rightarrow> pattern" where
  "rule c r i v = \<lparr>name = c, regex = RegExp r i, validate = v\<rparr>"

definition PATTERNS :: "pattern list" where
  "PATTERNS =
    [rule API_KEY re_api_key False None,
     rule PRIVATE_KEY re_private_key False None,
     rule PASSWORD re_password_assign True None,
     rule PASSWORD re_password_word True None,
     rule CREDIT_CARD re_card_plain False (Some validate_luhn),
     rule CREDIT_CARD re_card_spaced False (Some validate_luhn),
     rule CREDIT_CARD re_card_dashed False (Some validate_luhn),
     rule CREDIT_CARD re_card_amex False (Some validate_luhn),
     rule SSN re_ssn False None,
     rule BULK_EMAIL re_email False (Some validate_bulk),
     rule INTERNAL_IP re_internal_ip False None,
     rule JWT re_jwt False None,
     rule ENV_FILE re_env_line False (Some validate_env),
     rule CONNECTION_STRING re_connection_string True None]"

section \<open>scanText\<close>

definition MAX_SCAN_LENGTH :: nat where
  "MAX_SCAN_LENGTH = 500000"

datatype js_number = Num rat | Infinity | NegInfinity | NaN

datatype js_value =
    JString jsstring
  | JNumber js_number
  | JBoolean bool
  | JNull
  | JUndefined
  | JObject "(jsstring \<times> js_value) list"

text \<open>
  The two locals that live across the loop over the patterns. The keys of \<open>results\<close>
  are the names of \<open>CATEGORIES\<close>, one for each category.
\<close>

record scan_state =
  results :: "category \<rightharpoonup> nat"
  emailMatches :: "jsstring list"

type_synonym loop_state = "jsstring set \<times> scan_state"

definition count_hit :: "pattern \<Rightarrow> jsstring \<Rightarrow> bool \<Rightarrow> loop_state \<Rightarrow> loop_state" where
  \<comment> \<open>\<open>if (isValid && !seen.has(match[0])) { seen.add(..); results[..] = (results[..] || 0) + 1 }\<close>\<close>
  "count_hit p mt isValid acc =
     (case acc of (seen, st) \<Rightarrow>
        if isValid \<and> mt \<notin> seen
        then (insert mt seen,
              st\<lparr>results := (results st)(name p \<mapsto>
                    (case results st (name p) of None \<Rightarrow> 0 | Some n \<Rightarrow> n) + 1)\<rparr>)
        else (seen, st))"

definition loop_body :: "pattern \<Rightarrow> jsstring \<Rightarrow> jsstring \<Rightarrow> loop_state \<Rightarrow> loop_state option" where
  "loop_body p text mt acc =
     (case validate p of
        None \<Rightarrow> Some (count_hit p mt True acc)
      | Some v \<Rightarrow>
          if name p = BULK_EMAIL
          then Some (fst acc, (snd acc)\<lparr>emailMatches := emailMatches (snd acc) @ [mt]\<rparr>)
          else (case (if name p = ENV_FILE then v mt None (Some text) else v mt None None) of
                  None \<Rightarrow> None
                | Some isValid \<Rightarrow> Some (count_hit p mt isValid acc)))"

fun while_matches :: "pattern \<Rightarrow> jsstring \<Rightarrow> jsstring list \<Rightarrow> loop_state \<Rightarrow> loop_state option" where
  "while_matches p text [] acc = Some acc"
| "while_matches p text (mt # ms) acc =
     (case loop_body p text mt acc of
        None \<Rightarrow> None
      | Some acc' \<Rightarrow> while_matches p text ms acc')"

definition scan_pattern :: "pattern \<Rightarrow> jsstring \<Rightarrow> scan_state \<Rightarrow> scan_state option" where
  \<comment> \<open>one turn of \<open>for (const pattern of PATTERNS)\<close>: a fresh copy of the expression
      and a fresh \<open>seen\<close>\<close>
  "scan_pattern p text st =
     (case exec_all (RegExp (source (regex p)) (ignoreCase (regex p))) text of
        None \<Rightarrow> None
      | Some ms \<Rightarrow> map_option snd (while_matches p text ms ({}, st)))"

fun for_patterns :: "pattern list \<Rightarrow> jsstring \<Rightarrow> scan_state \<Rightarrow> scan_state option" where
  "for_patterns [] text st = Some st"
| "for_patterns (p # ps) text st =
     (case scan_pattern p text st of
        None \<Rightarrow> None
      | Some st' \<Rightarrow> for_patterns ps text st')"

definition bulk_email :: "scan_state \<Rightarrow> (category \<rightharpoonup> nat)" where
  \<comment> \<open>the lines after the loop: \<open>unique.size\<close> is the number of distinct matches\<close>
  "bulk_email st =
     (if length (emailMatches st) \<ge> 3
      then (let unique = remdups (emailMatches st)
            in if length unique \<ge> 3 then (results st)(BULK_EMAIL \<mapsto> length unique)
               else results st)
      else results st)"

definition scan_with :: "pattern list \<Rightarrow> js_value \<Rightarrow> (category \<rightharpoonup> nat) option" where
  \<comment> \<open>\<open>scanText\<close> with the catalogue as a parameter; \<open>None\<close>: the call does not return
      (an exception of a validator, or a loop that never ends)\<close>
  "scan_with ps v =
     (case v of
        JString text \<Rightarrow>
          if text = [] then Some Map.empty
          else if length text > MAX_SCAN_LENGTH then Some Map.empty
          else map_option bulk_email
                 (for_patterns ps text \<lparr>results = Map.empty, emailMatches = []\<rparr>)
      | _ \<Rightarrow> Some Map.empty)"

definition scanText :: "js_value \<Rightarrow> (category \<rightharpoonup> nat) option" where
  "scanText v = scan_with PATTERNS v"

section \<open>Evaluation rules\<close>

lemmas class_defs =
  is_digit_def is_upper_def is_lower_def is_alpha_def is_alnum_def is_word_def is_space_def
  is_word_dash_def is_sep_def is_quote_def is_assign_def is_value_char_def is_nonspace_def
  is_email_local_def is_email_domain_def is_env_head_def is_env_tail_def is_dot_any_def
  is_line_terminator_def is_in_def canonicalize_def
  word_before_def word_after_def line_start_def line_end_def

lemmas regex_defs =
  re_api_key_def re_private_key_def re_password_assign_def re_password_word_def
  re_card_plain_def re_card_spaced_def re_card_dashed_def re_card_amex_def re_ssn_def
  re_email_def re_internal_ip_def re_jwt_def re_env_line_def re_connection_string_def
  re_env_sensitive_def digit_run_def octet_def spaces0_def spaces1_def

lemmas scan_defs =
  scanText_def scan_with_def MAX_SCAN_LENGTH_def PATTERNS_def rule_def str_def
  scan_pattern_def exec_all_def exec_loop.simps RegExp_def match_here_def loop_body_def count_hit_def bulk_email_def
  validate_luhn_def validate_env_def test_def luhnCheck_def

section \<open>Every pattern consumes text, so the match loop ends\<close>

fun min_len :: "regex \<Rightarrow> nat" where
  "min_len (Sym P) = 1"
| "min_len (Lit l) = length l"
| "min_len (Seq r1 r2) = min_len r1 + min_len r2"
| "min_len (Alt r1 r2) = min (min_len r1) (min_len r2)"
| "min_len (Opt r) = 0"
| "min_len (Rep lo hi P) = lo"
| "min_len WordB = 0"
| "min_len LineStart = 0"
| "min_len LineEnd = 0"

lemma lit_length: "(p, t) \<in> set (lit ic l prev s) \<Longrightarrow> length t + length l = length s"
  by (induction ic l prev s rule: lit.induct) (auto split: if_splits)

lemma rep_length: "(p, t) \<in> set (rep lo hi P prev s) \<Longrightarrow> length t + lo \<le> length s"
  by (induction lo hi P prev s rule: rep.induct) (fastforce split: if_splits)+

lemma sym_length: "(p, t) \<in> set (sym P s) \<Longrightarrow> length t + 1 = length s"
  by (cases s) (auto split: if_splits)

lemma matcher_length: "(p, t) \<in> set (matcher ic r prev s) \<Longrightarrow> length t + min_len r \<le> length s"
proof (induction r arbitrary: prev s p t)
  case (Seq r1 r2)
  from Seq.prems obtain p' t' where a: "(p', t') \<in> set (matcher ic r1 prev s)"
    and b: "(p, t) \<in> set (matcher ic r2 p' t')" by auto
  from Seq.IH(1) [OF a] Seq.IH(2) [OF b] show ?case by simp
next
  case (Alt r1 r2)
  then show ?case by fastforce
next
  case (Opt r)
  then show ?case by fastforce
qed (auto dest: lit_length rep_length sym_length simp: str_def split: if_splits)

lemma match_here_nonempty:
  assumes "0 < min_len (source re)" and "match_here re prev s = Some (mt, st)"
  shows "mt \<noteq> []"
proof -
  from assms(2) obtain p t rest where mm: "matcher (ignoreCase re) (source re) prev s = (p, t) # rest"
    and mt: "mt = take (length s - length t) s"
    by (auto simp: match_here_def split: list.splits)
  from mm have "(p, t) \<in> set (matcher (ignoreCase re) (source re) prev s)" by simp
  from matcher_length [OF this] assms(1) have "length t < length s" by simp
  with mt show ?thesis by auto
qed

lemma exec_nonempty:
  "0 < min_len (source re) \<Longrightarrow> exec re prev s = Some (mt, st) \<Longrightarrow> mt \<noteq> []"
  by (induction s arbitrary: prev) (auto dest: match_here_nonempty split: option.splits)

lemma exec_loop_total:
  "0 < min_len (source re) \<Longrightarrow> \<exists>ms. exec_loop re prev s = Some ms"
proof (induction re prev s rule: exec_loop.induct)
  case (1 re prev s)
  show ?case
  proof (cases "exec re prev s")
    case None
    then show ?thesis by (simp add: exec_loop.simps)
  next
    case (Some r)
    obtain mt p t where r: "r = (mt, (p, t))" by (cases r) auto
    note IH = "1.IH" and pr = "1.prems"
    have ex: "exec re prev s = Some (mt, (p, t))" using Some r by simp
    from exec_nonempty [OF pr ex] have ne: "mt \<noteq> []" .
    from IH [OF ex refl refl ne pr]
    obtain ms where "exec_loop re p t = Some ms" by auto
    with ex ne show ?thesis by (simp add: exec_loop.simps)
  qed
qed

lemma exec_all_fresh_total:
  "0 < min_len r \<Longrightarrow> \<exists>ms. exec_all (RegExp r i) text = Some ms"
  using exec_loop_total [of "RegExp r i" None "text"]
  by (simp add: exec_all_def RegExp_def)

section \<open>What the loops of scanText compute\<close>

text \<open>
  For one rule and one text: the matches its loop sees, what the validator call of the
  loop body says of a match, and what the loop adds to \<open>results\<close> and to
  \<open>emailMatches\<close>.
\<close>

definition matches_of :: "pattern \<Rightarrow> jsstring \<Rightarrow> jsstring list" where
  \<comment> \<open>the matches of the rule's expression in the text, in order, as the loop sees them\<close>
  "matches_of p text =
     (case exec_all (RegExp (source (regex p)) (ignoreCase (regex p))) text of
        Some ms \<Rightarrow> ms | None \<Rightarrow> [])"

definition verdict :: "pattern \<Rightarrow> jsstring \<Rightarrow> jsstring \<Rightarrow> bool option" where
  \<comment> \<open>\<open>isValid\<close> for the match \<open>mt\<close>: true without a validator, else what the call of the
      loop body returns\<close>
  "verdict p text mt =
     (case validate p of
        None \<Rightarrow> Some True
      | Some v \<Rightarrow> if name p = ENV_FILE then v mt None (Some text) else v mt None None)"

definition is_collector :: "pattern \<Rightarrow> bool" where
  \<comment> \<open>the rule takes the branch that pushes to \<open>emailMatches\<close> and continues\<close>
  "is_collector p = (validate p \<noteq> None \<and> name p = BULK_EMAIL)"

definition safe_rule :: "pattern \<Rightarrow> bool" where
  \<comment> \<open>the rule's loop ends and its validator call never throws\<close>
  "safe_rule p = (0 < min_len (source (regex p))
     \<and> (is_collector p \<or> (\<forall>text mt. verdict p text mt \<noteq> None)))"

definition accepted :: "pattern \<Rightarrow> jsstring \<Rightarrow> jsstring set" where
  \<comment> \<open>the distinct matches that the validator accepts\<close>
  "accepted p text = {mt \<in> set (matches_of p text). verdict p text mt = Some True}"

definition hits :: "pattern \<Rightarrow> jsstring \<Rightarrow> nat" where
  \<comment> \<open>what the rule adds to the count of its category\<close>
  "hits p text = (if is_collector p then 0 else card (accepted p text))"

definition mails :: "pattern \<Rightarrow> jsstring \<Rightarrow> jsstring list" where
  \<comment> \<open>what the rule appends to \<open>emailMatches\<close>\<close>
  "mails p text = (if is_collector p then matches_of p text else [])"

definition add_count :: "(category \<rightharpoonup> nat) \<Rightarrow> category \<Rightarrow> nat \<Rightarrow> (category \<rightharpoonup> nat)" where
  "add_count r c k = (if k = 0 then r else r(c \<mapsto> (case r c of None \<Rightarrow> 0 | Some n \<Rightarrow> n) + k))"

lemma add_count_add: "add_count (add_count r c j) c k = add_count r c (j + k)"
  by (auto simp: add_count_def)

lemma while_matches_collector:
  "is_collector p \<Longrightarrow>
   while_matches p text ms (seen, st) = Some (seen, st\<lparr>emailMatches := emailMatches st @ ms\<rparr>)"
  by (induction ms arbitrary: st) (auto simp: is_collector_def loop_body_def)

lemma loop_body_counter:
  "\<not> is_collector p \<Longrightarrow> verdict p text mt = Some b \<Longrightarrow>
   loop_body p text mt acc = Some (count_hit p mt b acc)"
  by (auto simp: is_collector_def verdict_def loop_body_def split: option.splits if_splits)

lemma while_matches_counter:
  assumes "\<not> is_collector p" and "\<forall>mt. verdict p text mt \<noteq> None"
  shows "while_matches p text ms (seen, st) =
    Some (seen \<union> {mt \<in> set ms. verdict p text mt = Some True},
          st\<lparr>results := add_count (results st) (name p)
                (card ({mt \<in> set ms. verdict p text mt = Some True} - seen))\<rparr>)"
proof (induction ms arbitrary: seen st)
  case Nil
  show ?case by (simp add: add_count_def)
next
  case (Cons mt ms)
  let ?V = "{x \<in> set ms. verdict p text x = Some True}"
  from assms(2) have "verdict p text mt \<noteq> None" by blast
  then obtain b where b: "verdict p text mt = Some b" by auto
  show ?case
  proof (cases "b \<and> mt \<notin> seen")
    case True
    have V: "{x \<in> set (mt # ms). verdict p text x = Some True} = insert mt ?V"
      using True b by auto
    have c: "card (insert mt ?V - seen) = 1 + card (?V - insert mt seen)"
    proof -
      have "insert mt ?V - seen = insert mt (?V - insert mt seen)" using True by auto
      moreover have "mt \<notin> ?V - insert mt seen" by simp
      moreover have "finite (?V - insert mt seen)" by simp
      ultimately show ?thesis by simp
    qed
    have step: "loop_body p text mt (seen, st) =
        Some (insert mt seen, st\<lparr>results := add_count (results st) (name p) 1\<rparr>)"
      using True b loop_body_counter [OF assms(1) b, of "(seen, st)"]
      by (simp add: count_hit_def add_count_def)
    have "while_matches p text (mt # ms) (seen, st) =
        while_matches p text ms (insert mt seen, st\<lparr>results := add_count (results st) (name p) 1\<rparr>)"
      by (simp add: step)
    also have "\<dots> = Some (insert mt seen \<union> ?V,
        st\<lparr>results := add_count (add_count (results st) (name p) 1) (name p)
              (card (?V - insert mt seen))\<rparr>)"
      by (simp add: Cons.IH)
    also have "\<dots> = Some (seen \<union> insert mt ?V,
        st\<lparr>results := add_count (results st) (name p) (card (insert mt ?V - seen))\<rparr>)"
      by (simp only: add_count_add c) simp
    finally show ?thesis by (simp only: V)
  next
    case False
    have V: "{x \<in> set (mt # ms). verdict p text x = Some True} - seen = ?V - seen"
      using False b by auto
    have U: "seen \<union> {x \<in> set (mt # ms). verdict p text x = Some True} = seen \<union> ?V"
      using False b by auto
    have step: "loop_body p text mt (seen, st) = Some (seen, st)"
      using False b loop_body_counter [OF assms(1) b, of "(seen, st)"]
      by (auto simp add: count_hit_def)
    show ?thesis
      by (simp only: while_matches.simps step option.case Cons.IH V U)
  qed
qed

lemma scan_pattern_closed:
  assumes "safe_rule p"
  shows "scan_pattern p text st =
    Some (st\<lparr>results := add_count (results st) (name p) (hits p text),
            emailMatches := emailMatches st @ mails p text\<rparr>)"
proof -
  from assms have "0 < min_len (source (regex p))" by (simp add: safe_rule_def)
  from exec_all_fresh_total [OF this]
  obtain ms where ms: "exec_all (RegExp (source (regex p)) (ignoreCase (regex p))) text = Some ms"
    by blast
  then have mo: "matches_of p text = ms" by (simp add: matches_of_def)
  show ?thesis
  proof (cases "is_collector p")
    case True
    then show ?thesis
      by (simp add: scan_pattern_def ms while_matches_collector hits_def mails_def mo add_count_def)
  next
    case False
    with assms have "\<forall>mt. verdict p text mt \<noteq> None" by (simp add: safe_rule_def)
    from while_matches_counter [OF False this, of ms "{}" st] False
    show ?thesis
      by (simp add: scan_pattern_def ms hits_def mails_def mo accepted_def)
  qed
qed

definition tally :: "pattern list \<Rightarrow> jsstring \<Rightarrow> category \<Rightarrow> nat" where
  \<comment> \<open>the sum of what the rules of category \<open>c\<close> add\<close>
  "tally ps text c = (\<Sum>p\<leftarrow>ps. if name p = c then hits p text else 0)"

definition merged :: "(category \<rightharpoonup> nat) \<Rightarrow> (category \<Rightarrow> nat) \<Rightarrow> (category \<rightharpoonup> nat)" where
  "merged r k = (\<lambda>c. if k c = 0 then r c else Some ((case r c of None \<Rightarrow> 0 | Some n \<Rightarrow> n) + k c))"

lemma merged_add_count:
  "merged (add_count r d j) k = merged r (\<lambda>c. (if d = c then j else 0) + k c)"
  by (rule ext) (auto simp: merged_def add_count_def)

lemma tally_Cons:
  "tally (p # ps) text = (\<lambda>c. (if name p = c then hits p text else 0) + tally ps text c)"
  by (rule ext) (simp add: tally_def)

lemma for_patterns_closed:
  assumes "\<forall>p \<in> set ps. safe_rule p"
  shows "for_patterns ps text st =
    Some (st\<lparr>results := merged (results st) (tally ps text),
            emailMatches := emailMatches st @ concat (map (\<lambda>p. mails p text) ps)\<rparr>)"
  using assms
proof (induction ps arbitrary: st)
  case Nil
  have "merged (results st) (tally [] text) = results st"
    by (rule ext) (simp add: merged_def tally_def)
  then show ?case by simp
next
  case (Cons p ps)
  then have sp: "safe_rule p" and sps: "\<forall>p \<in> set ps. safe_rule p" by auto
  show ?case
    by (simp only: for_patterns.simps scan_pattern_closed [OF sp] option.case Cons.IH [OF sps]
        tally_Cons) (simp add: merged_add_count)
qed


lemma sum_list_mset_cong:
  fixes f :: "'a \<Rightarrow> nat"
  assumes "mset ps = mset qs"
  shows "sum_list (map f ps) = sum_list (map f qs)"
proof -
  from assms have "mset (map f ps) = mset (map f qs)" by simp
  then have "sum_mset (mset (map f ps)) = sum_mset (mset (map f qs))" by (rule arg_cong)
  then show ?thesis by (simp only: sum_mset_sum_list)
qed

lemma tally_mset: "mset ps = mset qs \<Longrightarrow> tally ps text = tally qs text"
  unfolding tally_def by (rule ext) (rule sum_list_mset_cong)

lemma mails_mset:
  assumes "mset ps = mset qs"
  shows "set (concat (map (\<lambda>p. mails p text) ps)) = set (concat (map (\<lambda>p. mails p text) qs))"
    and "length (concat (map (\<lambda>p. mails p text) ps)) = length (concat (map (\<lambda>p. mails p text) qs))"
proof -
  from assms have "set ps = set qs" by (rule mset_eq_setD)
  then show "set (concat (map (\<lambda>p. mails p text) ps)) = set (concat (map (\<lambda>p. mails p text) qs))"
    by simp
  from sum_list_mset_cong [OF assms, of "\<lambda>p. length (mails p text)"]
  show "length (concat (map (\<lambda>p. mails p text) ps)) = length (concat (map (\<lambda>p. mails p text) qs))"
    by (simp add: length_concat comp_def)
qed

lemma bulk_email_cong:
  assumes "results st = results st'" and "set (emailMatches st) = set (emailMatches st')"
    and "length (emailMatches st) = length (emailMatches st')"
  shows "bulk_email st = bulk_email st'"
  using assms by (simp add: bulk_email_def Let_def length_remdups_card_conv)

lemma safe_plain: "0 < min_len r \<Longrightarrow> safe_rule (rule c r i None)"
  by (simp add: rule_def RegExp_def safe_rule_def is_collector_def verdict_def)

lemma safe_luhn: "0 < min_len r \<Longrightarrow> safe_rule (rule c r i (Some validate_luhn))"
  by (simp add: rule_def RegExp_def safe_rule_def is_collector_def verdict_def validate_luhn_def)

lemma safe_bulk: "0 < min_len r \<Longrightarrow> safe_rule (rule BULK_EMAIL r i (Some v))"
  by (simp add: rule_def RegExp_def safe_rule_def is_collector_def)

lemma safe_env: "0 < min_len r \<Longrightarrow> safe_rule (rule ENV_FILE r i (Some validate_env))"
  by (simp add: rule_def RegExp_def safe_rule_def is_collector_def verdict_def validate_env_def)

lemma min_len_catalogue:
  "0 < min_len re_api_key" "0 < min_len re_private_key" "0 < min_len re_password_assign"
  "0 < min_len re_password_word" "0 < min_len re_card_plain" "0 < min_len re_card_spaced"
  "0 < min_len re_card_dashed" "0 < min_len re_card_amex" "0 < min_len re_ssn"
  "0 < min_len re_email" "0 < min_len re_internal_ip" "0 < min_len re_jwt"
  "0 < min_len re_env_line" "0 < min_len re_connection_string"
  by (simp_all add: regex_defs)

lemma PATTERNS_safe: "\<forall>p \<in> set PATTERNS. safe_rule p"
  by (simp add: PATTERNS_def safe_plain safe_luhn safe_bulk safe_env min_len_catalogue)

definition fresh :: "pattern \<Rightarrow> pattern" where
  \<comment> \<open>the rule with the \<open>lastIndex\<close> of its expression back at 0\<close>
  "fresh p = p\<lparr>regex := (regex p)\<lparr>lastIndex := 0\<rparr>\<rparr>"

lemma fresh_fields [simp]:
  "name (fresh p) = name p" "validate (fresh p) = validate p"
  "source (regex (fresh p)) = source (regex p)"
  "ignoreCase (regex (fresh p)) = ignoreCase (regex p)"
  by (simp_all add: fresh_def)

lemma count_hit_fresh: "count_hit (fresh p) mt b acc = count_hit p mt b acc"
  by (cases acc) (simp add: count_hit_def)

lemma loop_body_fresh: "loop_body (fresh p) = loop_body p"
  by (intro ext) (simp add: loop_body_def count_hit_fresh split: option.splits)

lemma while_matches_fresh: "while_matches (fresh p) t ms acc = while_matches p t ms acc"
  by (induction ms arbitrary: acc) (simp_all add: loop_body_fresh split: option.splits)

lemma scan_pattern_fresh: "scan_pattern (fresh p) = scan_pattern p"
  by (intro ext) (simp add: scan_pattern_def while_matches_fresh split: option.splits)

lemma for_patterns_fresh: "for_patterns (map fresh ps) t st = for_patterns ps t st"
  by (induction ps arbitrary: st) (simp_all add: scan_pattern_fresh split: option.splits)

lemma for_patterns_mset:
  assumes "mset ps = mset qs" and "\<forall>p \<in> set qs. safe_rule p"
  shows "map_option bulk_email (for_patterns ps t st) = map_option bulk_email (for_patterns qs t st)"
proof -
  from assms(1) have "set ps = set qs" by (rule mset_eq_setD)
  with assms(2) have sp: "\<forall>p \<in> set ps. safe_rule p" by simp
  have "bulk_email (st\<lparr>results := merged (results st) (tally ps t),
            emailMatches := emailMatches st @ concat (map (\<lambda>p. mails p t) ps)\<rparr>)
      = bulk_email (st\<lparr>results := merged (results st) (tally qs t),
            emailMatches := emailMatches st @ concat (map (\<lambda>p. mails p t) qs)\<rparr>)"
    using \<open>set ps = set qs\<close>
    by (intro bulk_email_cong) (simp_all add: tally_mset [OF assms(1)] mails_mset [OF assms(1)])
  then show ?thesis
    by (simp add: for_patterns_closed [OF sp] for_patterns_closed [OF assms(2)])
qed

lemma PATTERNS_fresh: "map fresh PATTERNS = PATTERNS"
  by (simp add: PATTERNS_def fresh_def rule_def RegExp_def)

definition email_matches :: "jsstring \<Rightarrow> jsstring list" where
  \<comment> \<open>the matches of the email expression in the text, repeats included\<close>
  "email_matches text = (case exec_all (RegExp re_email False) text of Some ms \<Rightarrow> ms | None \<Rightarrow> [])"

lemma tally_PATTERNS_bulk: "tally PATTERNS text BULK_EMAIL = 0"
  by (simp add: tally_def PATTERNS_def rule_def hits_def is_collector_def)

lemma mails_PATTERNS: "concat (map (\<lambda>p. mails p text) PATTERNS) = email_matches text"
  by (simp add: PATTERNS_def rule_def mails_def is_collector_def matches_of_def email_matches_def RegExp_def)

lemma scanText_closed:
  assumes "text \<noteq> []" and "length text \<le> MAX_SCAN_LENGTH"
  shows "scanText (JString text) =
    Some (bulk_email \<lparr>results = merged Map.empty (tally PATTERNS text), emailMatches = email_matches text\<rparr>)"
  using assms by (simp add: scanText_def scan_with_def for_patterns_closed [OF PATTERNS_safe] mails_PATTERNS)

lemma email_matches_Nil: "email_matches [] = []"
  by (simp add: email_matches_def exec_all_def RegExp_def exec_loop.simps match_here_def re_email_def str_def)

section \<open>The input guard of scanText\<close>

text \<open>
  C5. For every input that is empty, not a string, or longer than the maximum scan
  length of 500,000 code units, \<open>scanText\<close> returns the empty result, whatever the
  input contains.
\<close>

theorem scanText_guarded_input_empty:
  assumes "(\<forall>s. v \<noteq> JString s) \<or> v = JString [] \<or> (\<exists>s. v = JString s \<and> length s > MAX_SCAN_LENGTH)"
  shows "scanText v = Some Map.empty"
  using assms by (cases v) (auto simp: scanText_def scan_with_def)

theorem scanText_guarded_input_empty_witness:
  "scanText JNull = Some Map.empty
   \<and> scanText (JNumber (Num 0)) = Some Map.empty
   \<and> scanText (JString []) = Some Map.empty
   \<and> scanText (JString (replicate 500001 (of_char CHR ''4''))) = Some Map.empty"
  using scanText_guarded_input_empty [of JNull]
    scanText_guarded_input_empty [of "JNumber (Num 0)"]
    scanText_guarded_input_empty [of "JString []"]
    scanText_guarded_input_empty [of "JString (replicate 500001 (of_char CHR ''4''))"]
  by (simp add: MAX_SCAN_LENGTH_def)

section \<open>Social Security Numbers without separators\<close>

text \<open>
  C10. The separators of the Social Security Number rule are optional: for the text
  \<open>123456789\<close>, a bare run of nine digits, \<open>scanText\<close> reports the category
  Social Security Numbers, with count 1.
\<close>

theorem scanText_ssn_bare_digits:
  "scanText (JString (str ''123456789'')) = Some [SSN \<mapsto> 1]"
  by (simp add: scan_defs regex_defs class_defs)

section \<open>Determinism and the order of the rules\<close>

text \<open>
  C6. \<open>scanText\<close> is a function of the text and the catalogue: it writes only its own
  locals (\<open>results\<close>, \<open>emailMatches\<close>, the fresh copy \<open>regex\<close>, \<open>seen\<close>), so two runs on
  the same text give the same mapping. The mapping does not depend on the order in which
  the rules are evaluated, nor on the \<open>lastIndex\<close> that an earlier use left in the
  expressions of the catalogue: for every rearrangement \<open>ps\<close> of \<open>PATTERNS\<close>, with any
  \<open>lastIndex\<close> values, scanning with \<open>ps\<close> gives the result of \<open>scanText\<close>.
\<close>

theorem scan_order_independent:
  assumes "mset (map fresh ps) = mset PATTERNS"
  shows "scan_with ps v = scanText v"
proof (cases v)
  case (JString t)
  have "map_option bulk_email (for_patterns ps t st) = map_option bulk_email (for_patterns PATTERNS t st)" for st
    using for_patterns_mset [OF assms PATTERNS_safe, of t st] by (simp add: for_patterns_fresh)
  then show ?thesis by (simp add: JString scanText_def scan_with_def)
qed (simp_all add: scanText_def scan_with_def)

theorem scan_order_independent_witness:
  "mset (map fresh (rev PATTERNS)) = mset PATTERNS
   \<and> scan_with (rev PATTERNS) (JString (str ''10.0.0.5 and 192.168.1.1'')) = Some [INTERNAL_IP \<mapsto> 2]"
proof -
  have a: "mset (map fresh (rev PATTERNS)) = mset PATTERNS"
    by (simp add: rev_map [symmetric] PATTERNS_fresh)
  have b: "scanText (JString (str ''10.0.0.5 and 192.168.1.1'')) = Some [INTERNAL_IP \<mapsto> 2]"
    by (simp add: scan_defs regex_defs class_defs) (simp add: numeral_2_eq_2)
  have c: "scan_with (rev PATTERNS) (JString (str ''10.0.0.5 and 192.168.1.1'')) = Some [INTERNAL_IP \<mapsto> 2]"
    by (rule trans [OF scan_order_independent [OF a] b])
  show ?thesis by (rule conjI [OF a c])
qed

section \<open>Bulk email addresses\<close>

lemma email_matches_three:
  "email_matches (str ''a@x.com, b@y.com, c@z.com'') = [str ''a@x.com'', str ''b@y.com'', str ''c@z.com'']"
  by (simp add: email_matches_def scan_defs regex_defs class_defs)

lemma email_matches_repeat:
  "email_matches (str ''a@x.com, b@y.com, a@x.com'') = [str ''a@x.com'', str ''b@y.com'', str ''a@x.com'']"
  by (simp add: email_matches_def scan_defs regex_defs class_defs)

lemma exec_email_spaces: "exec (RegExp re_email False) prev (replicate n 32) = None"
  by (induction n arbitrary: prev)
     (simp_all add: match_here_def RegExp_def re_email_def str_def is_email_local_def class_defs)

lemma email_matches_padded:
  "email_matches (str ''a@x.com b@y.com c@z.com '' @ replicate n 32)
     = [str ''a@x.com'', str ''b@y.com'', str ''c@z.com'']"
  using exec_email_spaces [of _ n]
  by (simp add: email_matches_def exec_all_def exec_loop.simps match_here_def RegExp_def str_def
      re_email_def class_defs)

text \<open>
  C4, as amended. \<open>email_matches text\<close> are the matches of the email expression in the
  text. When at most 2 of them are distinct the result has no entry for Bulk email
  addresses; when the text has at most 500,000 code units and 3 or more are distinct,
  the entry is the number of distinct addresses, however often each is repeated.
\<close>

theorem bulk_email_threshold:
  "(card (set (email_matches text)) \<le> 2 \<longrightarrow>
      (\<exists>res. scanText (JString text) = Some res \<and> res BULK_EMAIL = None))
   \<and> (length text \<le> MAX_SCAN_LENGTH \<and> 3 \<le> card (set (email_matches text)) \<longrightarrow>
      (\<exists>res. scanText (JString text) = Some res
         \<and> res BULK_EMAIL = Some (card (set (email_matches text)))))"
proof (cases "text \<noteq> [] \<and> length text \<le> MAX_SCAN_LENGTH")
  case True
  have le: "length (remdups (email_matches text)) \<le> length (email_matches text)"
    by (rule length_remdups_leq)
  show ?thesis
    using le
    by (auto simp: scanText_closed True bulk_email_def Let_def merged_def tally_PATTERNS_bulk
        length_remdups_card_conv)
next
  case False
  then show ?thesis
    by (auto simp: scanText_def scan_with_def email_matches_Nil)
qed

theorem bulk_email_threshold_witness:
  "card (set (email_matches (str ''a@x.com, b@y.com, a@x.com''))) \<le> 2
   \<and> (\<exists>res. scanText (JString (str ''a@x.com, b@y.com, a@x.com'')) = Some res \<and> res BULK_EMAIL = None)
   \<and> length (str ''a@x.com, b@y.com, c@z.com'') \<le> MAX_SCAN_LENGTH
   \<and> 3 \<le> card (set (email_matches (str ''a@x.com, b@y.com, c@z.com'')))
   \<and> (\<exists>res. scanText (JString (str ''a@x.com, b@y.com, c@z.com'')) = Some res \<and> res BULK_EMAIL = Some 3)"
proof -
  have two: "card (set (email_matches (str ''a@x.com, b@y.com, a@x.com''))) = 2"
    by (simp add: email_matches_repeat) (simp add: str_def card_insert_if)
  have three: "card (set (email_matches (str ''a@x.com, b@y.com, c@z.com''))) = 3"
    by (simp add: email_matches_three) (simp add: str_def card_insert_if)
  have len: "length (str ''a@x.com, b@y.com, c@z.com'') \<le> MAX_SCAN_LENGTH"
    by (simp add: str_def MAX_SCAN_LENGTH_def)
  from bulk_email_threshold [of "str ''a@x.com, b@y.com, a@x.com''"]
    bulk_email_threshold [of "str ''a@x.com, b@y.com, c@z.com''"] len
  show ?thesis unfolding two three by simp
qed

text \<open>
  C4 as stated fails beyond the maximum scan length: this text of 500,024 code units has
  three distinct email addresses, and the result of \<open>scanText\<close> is empty.
\<close>

theorem bulk_email_oversized_counterexample:
  "card (set (email_matches (str ''a@x.com b@y.com c@z.com '' @ replicate 500000 32))) = 3
   \<and> scanText (JString (str ''a@x.com b@y.com c@z.com '' @ replicate 500000 32)) = Some Map.empty"
  by (simp add: email_matches_padded scanText_def scan_with_def MAX_SCAN_LENGTH_def) (simp add: str_def)

section \<open>Credit cards\<close>

subsection \<open>The Luhn checksum, as the specification words it\<close>

text \<open>
  The specification: the validation is the Luhn checksum over the digit-only form of a
  match, which must have between 13 and 19 digits. The checksum counts the digits from
  the right, doubles every second one, takes 9 off a double above 9, and asks the total
  to be a multiple of 10.
\<close>

definition luhn_weight :: "nat \<Rightarrow> nat \<Rightarrow> nat" where
  "luhn_weight i d = (if odd i then (if 2 * d > 9 then 2 * d - 9 else 2 * d) else d)"

definition luhn_checksum :: "nat list \<Rightarrow> nat" where
  "luhn_checksum ds = (\<Sum>i < length ds. luhn_weight i (rev ds ! i))"

definition digit_values :: "jsstring \<Rightarrow> nat list" where
  "digit_values s = map (\<lambda>c. c - 48) (filter is_digit s)"

definition passes_luhn :: "jsstring \<Rightarrow> bool" where
  "passes_luhn s = (13 \<le> length (digit_values s) \<and> length (digit_values s) \<le> 19
     \<and> luhn_checksum (digit_values s) mod 10 = 0)"

lemma luhn_weight_step: "luhn_weight (Suc (Suc i)) d = luhn_weight i d"
  by (simp add: luhn_weight_def)

lemma luhn_loop_sum:
  "luhn_loop cs isEven acc =
     acc + (\<Sum>i < length cs. luhn_weight (i + (if isEven then 1 else 0)) (cs ! i - 48))"
proof (induction cs arbitrary: isEven acc)
  case Nil
  show ?case by simp
next
  case (Cons c cs)
  let ?f = "\<lambda>i. luhn_weight (i + (if isEven then 1 else 0)) ((c # cs) ! i - 48)"
  have split: "(\<Sum>i < length (c # cs). ?f i) = ?f 0 + (\<Sum>i < length cs. ?f (Suc i))"
    by (simp only: list.size sum.lessThan_Suc_shift add_Suc_right add_0_right One_nat_def)
  have shift: "?f (Suc i) = luhn_weight (i + (if \<not> isEven then 1 else 0)) (cs ! i - 48)" for i
    by (simp add: luhn_weight_step)
  have head: "luhn_loop (c # cs) isEven acc = luhn_loop cs (\<not> isEven) (acc + ?f 0)"
    by (simp add: luhn_weight_def Let_def mult.commute)
  show ?case
    by (simp only: head Cons.IH split shift add.assoc)
qed

lemma luhnCheck_refines: "luhnCheck s = passes_luhn s"
proof -
  have "luhn_loop (rev (filter is_digit s)) False 0 = luhn_checksum (digit_values s)"
    by (simp add: luhn_loop_sum luhn_checksum_def digit_values_def rev_map [symmetric] rev_nth)
  then show ?thesis
    by (auto simp: luhnCheck_def passes_luhn_def Let_def digit_values_def)
qed

subsection \<open>Where a card number is found\<close>

lemma digit_is_word: "is_digit c \<Longrightarrow> is_word c"
  by (simp add: is_word_def is_alnum_def)

lemma nonword_nondigit: "\<not> is_word c \<Longrightarrow> \<not> is_digit c"
  by (auto dest: digit_is_word)

definition last_unit :: "jsstring \<Rightarrow> unit16 option" where
  \<comment> \<open>the code unit before the position that follows \<open>pre\<close>, none when \<open>pre\<close> is empty\<close>
  "last_unit pre = (if pre = [] then None else Some (last pre))"

lemma match_card_plain:
  assumes "list_all is_digit [d1, d2, d3, d4, d5, d6, d7, d8, d9, d10, d11, d12, d13, d14, d15, d16]"
    and "\<not> word_before prev" and "\<not> word_after post"
  shows "match_here (RegExp re_card_plain False) prev
           ([d1, d2, d3, d4, d5, d6, d7, d8, d9, d10, d11, d12, d13, d14, d15, d16] @ post)
       = Some ([d1, d2, d3, d4, d5, d6, d7, d8, d9, d10, d11, d12, d13, d14, d15, d16], (Some d16, post))"
proof (cases post)
  case Nil
  with assms show ?thesis
    by (simp add: match_here_def RegExp_def re_card_plain_def digit_is_word word_after_def
        word_before_def [of "Some _"])
next
  case (Cons c cs)
  with assms have "\<not> is_digit c" by (simp add: word_after_def nonword_nondigit)
  with Cons assms show ?thesis
    by (simp add: match_here_def RegExp_def re_card_plain_def digit_is_word word_after_def
        word_before_def [of "Some _"])
qed

lemma rep_done: "rep 0 (Some 0) P prev s = [(prev, s)]"
  by (cases s) simp_all

definition grouped :: "unit16 \<Rightarrow> jsstring \<Rightarrow> jsstring" where
  \<comment> \<open>sixteen digits as 4-4-4-4 with the separator \<open>sep\<close>: 32 is the space, 45 the dash\<close>
  "grouped sep ds =
     take 4 ds @ sep # take 4 (drop 4 ds) @ sep # take 4 (drop 8 ds) @ sep # drop 12 ds"

lemma match_card_spaced:
  assumes "list_all is_digit [d1, d2, d3, d4, d5, d6, d7, d8, d9, d10, d11, d12, d13, d14, d15, d16]"
    and "\<not> word_before prev" and "\<not> word_after post"
  shows "match_here (RegExp re_card_spaced False) prev
           (grouped 32 [d1, d2, d3, d4, d5, d6, d7, d8, d9, d10, d11, d12, d13, d14, d15, d16] @ post)
       = Some (grouped 32 [d1, d2, d3, d4, d5, d6, d7, d8, d9, d10, d11, d12, d13, d14, d15, d16],
               (Some d16, post))"
  using assms
  by (simp add: match_here_def RegExp_def re_card_spaced_def digit_run_def grouped_def rep_done
      digit_is_word is_space_def word_before_def [of "Some _"] word_after_def [of "_ # _"])

lemma match_card_dashed:
  assumes "list_all is_digit [d1, d2, d3, d4, d5, d6, d7, d8, d9, d10, d11, d12, d13, d14, d15, d16]"
    and "\<not> word_before prev" and "\<not> word_after post"
  shows "match_here (RegExp re_card_dashed False) prev
           (grouped 45 [d1, d2, d3, d4, d5, d6, d7, d8, d9, d10, d11, d12, d13, d14, d15, d16] @ post)
       = Some (grouped 45 [d1, d2, d3, d4, d5, d6, d7, d8, d9, d10, d11, d12, d13, d14, d15, d16],
               (Some d16, post))"
  using assms
  by (simp add: match_here_def RegExp_def re_card_dashed_def digit_run_def grouped_def rep_done
      digit_is_word str_def word_before_def [of "Some _"] word_after_def [of "_ # _"])

lemma length16:
  assumes "length ds = 16"
  obtains d1 d2 d3 d4 d5 d6 d7 d8 d9 d10 d11 d12 d13 d14 d15 d16
  where "ds = [d1, d2, d3, d4, d5, d6, d7, d8, d9, d10, d11, d12, d13, d14, d15, d16]"
  using assms by (auto simp: length_Suc_conv eval_nat_numeral)

lemma hits_positive:
  assumes "\<not> is_collector p" and "mt \<in> set (matches_of p t)" and "verdict p t mt = Some True"
  shows "1 \<le> hits p t"
proof -
  from assms(2,3) have "mt \<in> accepted p t" by (simp add: accepted_def)
  moreover have "finite (accepted p t)" by (simp add: accepted_def)
  ultimately have "0 < card (accepted p t)" by (auto simp: card_gt_0_iff)
  with assms(1) show ?thesis by (simp add: hits_def)
qed

lemma tally_ge: "p \<in> set ps \<Longrightarrow> name p = c \<Longrightarrow> hits p t \<le> tally ps t c"
proof -
  assume a: "p \<in> set ps" "name p = c"
  then have "(if name p = c then hits p t else 0) \<in> set (map (\<lambda>p. if name p = c then hits p t else 0) ps)"
    by (auto simp: image_iff intro!: bexI [of _ p])
  from member_le_sum_list [OF this] a show ?thesis by (simp add: tally_def)
qed

lemma scanText_counts:
  assumes "t \<noteq> []" and "length t \<le> MAX_SCAN_LENGTH" and "c \<noteq> BULK_EMAIL"
  shows "\<exists>res. scanText (JString t) = Some res
           \<and> res c = (if tally PATTERNS t c = 0 then None else Some (tally PATTERNS t c))"
  using assms by (simp add: scanText_closed bulk_email_def Let_def merged_def)

definition card_number :: "jsstring \<Rightarrow> bool" where
  \<comment> \<open>a Luhn-valid 16-digit card number, its digits only\<close>
  "card_number ds = (length ds = 16 \<and> list_all is_digit ds \<and> passes_luhn ds)"

lemma card_rules:
  "\<forall>p \<in> set PATTERNS. name p = CREDIT_CARD \<longrightarrow> validate p = Some validate_luhn"
  by (simp add: PATTERNS_def rule_def)

lemma passes_luhn_grouped:
  assumes "list_all is_digit ds" and "\<not> is_digit sep"
  shows "passes_luhn (grouped sep ds) = passes_luhn ds"
proof -
  have f: "filter is_digit (take n xs) = take n xs" if "list_all is_digit xs" for n xs
    using that by (auto simp: list_all_iff filter_id_conv dest: in_set_takeD)
  have g: "list_all is_digit (drop n ds)" for n
    using assms(1) by (auto simp: list_all_iff dest: in_set_dropD)
  have h: "filter is_digit (drop 12 ds) = drop 12 ds"
    using g [of 12] by (simp add: list_all_iff filter_id_conv)
  have "filter is_digit (grouped sep ds) = take 4 ds @ take 4 (drop 4 ds) @ take 4 (drop 8 ds) @ drop 12 ds"
    using assms by (simp add: grouped_def f g h)
  also have "\<dots> = ds"
  proof -
    have a: "take 4 (drop 8 ds) @ drop 12 ds = drop 8 ds"
      using append_take_drop_id [of 4 "drop 8 ds"] by simp
    have b: "take 4 (drop 4 ds) @ drop 8 ds = drop 4 ds"
      using append_take_drop_id [of 4 "drop 4 ds"] by simp
    show ?thesis by (simp only: a b append_take_drop_id)
  qed
  finally have "filter is_digit (grouped sep ds) = ds" .
  moreover have "filter is_digit ds = ds"
    using assms(1) by (simp add: list_all_iff filter_id_conv)
  ultimately show ?thesis by (simp add: passes_luhn_def digit_values_def)
qed

lemma rep_split:
  "(p, t) \<in> set (rep lo hi P prev s) \<Longrightarrow> \<exists>u. s = u @ t \<and> list_all P u"
proof (induction lo hi P prev s rule: rep.induct)
  case (1 lo hi P prev)
  then show ?case by (auto split: if_splits)
next
  case (2 lo hi P prev c cs)
  from "2.prems" consider
    (more) "hi \<noteq> Some 0" "P c" "(p, t) \<in> set (rep (lo - 1) (map_option (\<lambda>h. h - 1) hi) P (Some c) cs)"
    | (stop) "t = c # cs"
    by (auto split: if_splits)
  then show ?case
  proof cases
    case more
    from "2.IH" [OF _ more(3)] more(1,2) obtain u where "cs = u @ t" "list_all P u" by auto
    then have "c # cs = (c # u) @ t \<and> list_all P (c # u)" using more(2) by simp
    then show ?thesis by blast
  next
    case stop
    then have "c # cs = [] @ t \<and> list_all P []" by simp
    then show ?thesis by blast
  qed
qed

lemma plain_match_shape:
  assumes "match_here (RegExp re_card_plain False) prev s = Some (mt, (p, t))"
  shows "s = mt @ t \<and> list_all is_digit mt \<and> mt \<noteq> []"
proof -
  from assms obtain rest where
    mm: "matcher False re_card_plain prev s = (p, t) # rest" and mt: "mt = take (length s - length t) s"
    by (auto simp: match_here_def RegExp_def split: list.splits)
  then have "(p, t) \<in> set (matcher False re_card_plain prev s)" by simp
  then obtain q where "(q, t) \<in> set (rep 13 (Some 19) is_digit prev s)"
    by (auto simp: re_card_plain_def split: if_splits)
  from rep_split [OF this] obtain u where u: "s = u @ t" "list_all is_digit u" by blast
  with mt have "mt = u" by simp
  moreover have "mt \<noteq> []"
    using match_here_nonempty [OF _ assms] by (simp add: RegExp_def re_card_plain_def)
  ultimately show ?thesis using u by simp
qed

lemma exec_plain_cases:
  "exec (RegExp re_card_plain False) prev (pre @ c0 # rest)
      = exec (RegExp re_card_plain False) (if pre = [] then prev else Some (last pre)) (c0 # rest)
   \<or> (\<exists>u mt t p. length u < length pre \<and> pre @ c0 # rest = u @ mt @ t \<and> list_all is_digit mt
         \<and> mt \<noteq> [] \<and> exec (RegExp re_card_plain False) prev (pre @ c0 # rest) = Some (mt, (p, t)))"
proof (induction pre arbitrary: prev)
  case Nil
  show ?case by simp
next
  case (Cons c pre)
  let ?re = "RegExp re_card_plain False"
  show ?case
  proof (cases "match_here ?re prev (c # pre @ c0 # rest)")
    case None
    then have e: "exec ?re prev ((c # pre) @ c0 # rest) = exec ?re (Some c) (pre @ c0 # rest)" by simp
    from Cons.IH [of "Some c"] show ?thesis
    proof
      assume "exec ?re (Some c) (pre @ c0 # rest)
          = exec ?re (if pre = [] then Some c else Some (last pre)) (c0 # rest)"
      with e show ?thesis by simp
    next
      assume "\<exists>u mt t p. length u < length pre \<and> pre @ c0 # rest = u @ mt @ t \<and> list_all is_digit mt
         \<and> mt \<noteq> [] \<and> exec ?re (Some c) (pre @ c0 # rest) = Some (mt, (p, t))"
      then obtain u mt t p where "length u < length pre" "pre @ c0 # rest = u @ mt @ t"
        "list_all is_digit mt" "mt \<noteq> []" "exec ?re (Some c) (pre @ c0 # rest) = Some (mt, (p, t))"
        by blast
      then have "length (c # u) < length (c # pre) \<and> (c # pre) @ c0 # rest = (c # u) @ mt @ t
          \<and> list_all is_digit mt \<and> mt \<noteq> []
          \<and> exec ?re prev ((c # pre) @ c0 # rest) = Some (mt, (p, t))"
        using e by simp
      then show ?thesis by blast
    qed
  next
    case (Some r)
    obtain mt p t where r: "r = (mt, (p, t))" by (cases r) auto
    have ex: "exec ?re prev ((c # pre) @ c0 # rest) = Some (mt, (p, t))"
      using Some r by simp
    from plain_match_shape [of prev "c # pre @ c0 # rest" mt p t] Some r
    have sh: "(c # pre) @ c0 # rest = [] @ mt @ t" "list_all is_digit mt" "mt \<noteq> []" by simp_all
    have "length ([] :: jsstring) < length (c # pre)" by simp
    with sh ex show ?thesis by blast
  qed
qed


lemma exec_loop_step:
  "exec re prev s = Some (mt, (p, t)) \<Longrightarrow> mt \<noteq> [] \<Longrightarrow> exec_loop re p t = Some ms \<Longrightarrow>
   exec_loop re prev s = Some (mt # ms)"
  by (simp add: exec_loop.simps [of re prev s])

lemma plain_card_listed:
  assumes card: "list_all is_digit [d1, d2, d3, d4, d5, d6, d7, d8, d9, d10, d11, d12, d13, d14, d15, d16]"
    and post: "\<not> word_after post"
  shows "\<not> word_before (if pre = [] then prev else Some (last pre)) \<Longrightarrow>
    \<exists>ms. exec_loop (RegExp re_card_plain False) prev
            (pre @ [d1, d2, d3, d4, d5, d6, d7, d8, d9, d10, d11, d12, d13, d14, d15, d16] @ post) = Some ms
        \<and> [d1, d2, d3, d4, d5, d6, d7, d8, d9, d10, d11, d12, d13, d14, d15, d16] \<in> set ms"
proof (induction "length pre" arbitrary: pre prev rule: less_induct)
  case less
  let ?re = "RegExp re_card_plain False"
  let ?card = "[d1, d2, d3, d4, d5, d6, d7, d8, d9, d10, d11, d12, d13, d14, d15, d16]"
  let ?rest = "[d2, d3, d4, d5, d6, d7, d8, d9, d10, d11, d12, d13, d14, d15, d16] @ post"
  have ml: "0 < min_len (source ?re)" by (simp add: RegExp_def re_card_plain_def)
  have whole: "pre @ ?card @ post = pre @ d1 # ?rest" by simp
  from exec_plain_cases [of prev pre d1 ?rest] show ?case
  proof
    assume "exec ?re prev (pre @ d1 # ?rest)
        = exec ?re (if pre = [] then prev else Some (last pre)) (d1 # ?rest)"
    moreover have "match_here ?re (if pre = [] then prev else Some (last pre)) (?card @ post)
        = Some (?card, (Some d16, post))"
      by (rule match_card_plain [OF card less.prems post])
    ultimately have ex: "exec ?re prev (pre @ ?card @ post) = Some (?card, (Some d16, post))"
      by simp
    from exec_loop_total [OF ml, of "Some d16" post] obtain ms where "exec_loop ?re (Some d16) post = Some ms"
      by blast
    then have "exec_loop ?re prev (pre @ ?card @ post) = Some (?card # ms)"
      by (intro exec_loop_step [OF ex]) simp_all
    then show ?thesis by simp
  next
    assume "\<exists>u mt t p. length u < length pre \<and> pre @ d1 # ?rest = u @ mt @ t \<and> list_all is_digit mt
         \<and> mt \<noteq> [] \<and> exec ?re prev (pre @ d1 # ?rest) = Some (mt, (p, t))"
    then obtain u mt t p where u: "length u < length pre" and eq: "pre @ d1 # ?rest = u @ mt @ t"
      and dg: "list_all is_digit mt" and ne: "mt \<noteq> []"
      and ex: "exec ?re prev (pre @ d1 # ?rest) = Some (mt, (p, t))"
      by blast
    from u have pne: "pre \<noteq> []" by auto
    with less.prems have lw: "\<not> is_word (last pre)" by (simp add: word_before_def)
    then have ld: "\<not> is_digit (last pre)" by (rule nonword_nondigit)
    have short: "length (u @ mt) < length pre"
    proof (rule ccontr)
      assume "\<not> length (u @ mt) < length pre"
      then have le: "length pre \<le> length (u @ mt)" by simp
      from eq have "take (length pre) (u @ mt @ t) = pre" by (metis append_eq_conv_conj)
      with le have "pre = take (length pre) (u @ mt)" by (simp add: take_append)
      then have lp: "last pre = (u @ mt) ! (length pre - 1)"
        using pne le by (metis last_conv_nth length_greater_0_conv nth_take diff_less zero_less_one)
      have i1: "length u \<le> length pre - 1" using u by simp
      have i2: "length pre - 1 - length u < length mt" using u le pne by (cases pre) auto
      from i1 have "(u @ mt) ! (length pre - 1) = mt ! (length pre - 1 - length u)"
        by (simp add: nth_append)
      with lp i2 have "last pre \<in> set mt" by (metis nth_mem)
      with dg ld show False by (simp add: list_all_iff)
    qed
    from eq have "take (length (u @ mt)) (pre @ d1 # ?rest) = u @ mt"
      by (metis append.assoc append_eq_conv_conj)
    with short have pm: "take (length (u @ mt)) pre = u @ mt" by (simp add: take_append)
    define pre' where "pre' = drop (length (u @ mt)) pre"
    from pm have split: "pre = (u @ mt) @ pre'" unfolding pre'_def by (metis append_take_drop_id)
    from short have p'ne: "pre' \<noteq> []" unfolding pre'_def by simp
    from split eq have t: "t = pre' @ ?card @ post" by simp
    have shorter: "length pre' < length pre" using split ne by simp
    have lp: "last pre' = last pre" using split p'ne by simp
    from less.hyps [OF shorter, of p] p'ne lw lp
    obtain ms where "exec_loop ?re p (pre' @ ?card @ post) = Some ms" "?card \<in> set ms"
      by (auto simp: word_before_def)
    then have "exec_loop ?re prev (pre @ d1 # ?rest) = Some (mt # ms)"
      using ex ne t by (intro exec_loop_step [where p = p and t = t]) simp_all
    with \<open>?card \<in> set ms\<close> show ?thesis by simp
  qed
qed

lemma card_rule_detects_listed:
  assumes p: "p \<in> set PATTERNS" "name p = CREDIT_CARD" "validate p = Some validate_luhn"
    and m1: "mt \<in> set (matches_of p t)"
    and luhn: "luhnCheck mt"
    and ne: "t \<noteq> []"
    and len: "length t \<le> MAX_SCAN_LENGTH"
  shows "\<exists>res n. scanText (JString t) = Some res \<and> res CREDIT_CARD = Some n \<and> 1 \<le> n"
proof -
  have nc: "\<not> is_collector p" using p(2) by (simp add: is_collector_def)
  have v: "verdict p t mt = Some True"
    using p(2,3) luhn by (simp add: verdict_def validate_luhn_def)
  from hits_positive [OF nc m1 v] tally_ge [OF p(1,2), of t]
  have pos: "1 \<le> tally PATTERNS t CREDIT_CARD" by simp
  from scanText_counts [OF ne len, of CREDIT_CARD] pos show ?thesis by auto
qed

lemma card_plain_detected:
  assumes ds: "length ds = 16" "list_all is_digit ds" "luhnCheck ds"
    and pre: "\<not> word_before (last_unit pre)"
    and post: "\<not> word_after post"
    and len: "length (pre @ ds @ post) \<le> MAX_SCAN_LENGTH"
  shows "\<exists>res n. scanText (JString (pre @ ds @ post)) = Some res \<and> res CREDIT_CARD = Some n \<and> 1 \<le> n"
proof -
  let ?p = "rule CREDIT_CARD re_card_plain False (Some validate_luhn)"
  from ds(1) obtain d1 d2 d3 d4 d5 d6 d7 d8 d9 d10 d11 d12 d13 d14 d15 d16
    where e: "ds = [d1, d2, d3, d4, d5, d6, d7, d8, d9, d10, d11, d12, d13, d14, d15, d16]"
    by (rule length16)
  have wb: "\<not> word_before (if pre = [] then None else Some (last pre))"
    using pre by (simp add: last_unit_def)
  from plain_card_listed [OF ds(2) [unfolded e] post wb]
  obtain ms where "exec_loop (RegExp re_card_plain False) None (pre @ ds @ post) = Some ms" "ds \<in> set ms"
    unfolding e by blast
  then have m1: "ds \<in> set (matches_of ?p (pre @ ds @ post))"
    by (simp add: matches_of_def exec_all_def rule_def RegExp_def)
  have ne: "pre @ ds @ post \<noteq> []" by (simp add: e)
  show ?thesis
    by (rule card_rule_detects_listed [OF _ _ _ m1 ds(3) ne len]) (simp_all add: PATTERNS_def rule_def)
qed

subsection \<open>Matches before a card number\<close>

lemma lit_state:
  "(p, t) \<in> set (lit ic l prev s) \<Longrightarrow> \<exists>m. s = m @ t \<and> p = (if m = [] then prev else Some (last m))"
proof (induction ic l prev s rule: lit.induct)
  case (1 ic prev s)
  then show ?case by simp
next
  case (2 ic a as prev)
  then show ?case by simp
next
  case (3 ic a as prev c cs)
  from "3.prems" have c: "(if ic then canonicalize a = canonicalize c else a = c)"
    and m: "(p, t) \<in> set (lit ic as (Some c) cs)"
    by (auto split: if_splits)
  from "3.IH" [OF c m] obtain m where "cs = m @ t" "p = (if m = [] then Some c else Some (last m))"
    by blast
  then have "c # cs = (c # m) @ t \<and> p = (if c # m = [] then prev else Some (last (c # m)))"
    by simp
  then show ?case by blast
qed

lemma rep_state:
  "(p, t) \<in> set (rep lo hi P prev s) \<Longrightarrow> \<exists>m. s = m @ t \<and> p = (if m = [] then prev else Some (last m))"
proof (induction lo hi P prev s rule: rep.induct)
  case (1 lo hi P prev)
  then show ?case by (auto split: if_splits)
next
  case (2 lo hi P prev c cs)
  from "2.prems" consider
    (more) "hi \<noteq> Some 0" "P c" "(p, t) \<in> set (rep (lo - 1) (map_option (\<lambda>h. h - 1) hi) P (Some c) cs)"
    | (stop) "t = c # cs" "p = prev"
    by (auto split: if_splits)
  then show ?case
  proof cases
    case more
    from "2.IH" [OF _ more(3)] more(1,2)
    obtain m where "cs = m @ t" "p = (if m = [] then Some c else Some (last m))" by auto
    then have "c # cs = (c # m) @ t \<and> p = (if c # m = [] then prev else Some (last (c # m)))"
      by simp
    then show ?thesis by blast
  next
    case stop
    then have "c # cs = [] @ t \<and> p = (if ([] :: jsstring) = [] then prev else Some (last []))" by simp
    then show ?thesis by blast
  qed
qed

lemma sym_state:
  "(p, t) \<in> set (sym P s) \<Longrightarrow> \<exists>m. s = m @ t \<and> p = (if m = [] then prev else Some (last m))"
proof (cases s)
  case Nil
  assume "(p, t) \<in> set (sym P s)"
  with Nil show ?thesis by simp
next
  case (Cons c cs)
  assume "(p, t) \<in> set (sym P s)"
  with Cons have "s = [c] @ t \<and> p = (if [c] = [] then prev else Some (last [c]))"
    by (auto split: if_splits)
  then show ?thesis by blast
qed

lemma matcher_state:
  "(p, t) \<in> set (matcher ic r prev s) \<Longrightarrow> \<exists>m. s = m @ t \<and> p = (if m = [] then prev else Some (last m))"
proof (induction r arbitrary: prev s p t)
  case (Sym P)
  then have "(p, t) \<in> set (sym P s)" by simp
  then show ?case by (rule sym_state)
next
  case (Lit l)
  then have "(p, t) \<in> set (lit ic (str l) prev s)" by simp
  then show ?case by (rule lit_state)
next
  case (Seq r1 r2)
  from Seq.prems obtain p1 t1 where a: "(p1, t1) \<in> set (matcher ic r1 prev s)"
    and b: "(p, t) \<in> set (matcher ic r2 p1 t1)"
    by auto
  from Seq.IH(1) [OF a] obtain m1 where m1: "s = m1 @ t1" "p1 = (if m1 = [] then prev else Some (last m1))"
    by blast
  from Seq.IH(2) [OF b] obtain m2 where m2: "t1 = m2 @ t" "p = (if m2 = [] then p1 else Some (last m2))"
    by blast
  from m1 m2 have "s = (m1 @ m2) @ t \<and> p = (if m1 @ m2 = [] then prev else Some (last (m1 @ m2)))"
    by simp
  then show ?case by blast
next
  case (Alt r1 r2)
  from Alt.prems consider "(p, t) \<in> set (matcher ic r1 prev s)" | "(p, t) \<in> set (matcher ic r2 prev s)"
    by auto
  then show ?case
  proof cases
    case 1
    then show ?thesis by (rule Alt.IH(1))
  next
    case 2
    then show ?thesis by (rule Alt.IH(2))
  qed
next
  case (Opt r)
  from Opt.prems consider "(p, t) \<in> set (matcher ic r prev s)" | "p = prev" "t = s" by auto
  then show ?case
  proof cases
    case 1
    then show ?thesis by (rule Opt.IH)
  next
    case 2
    then have "s = [] @ t \<and> p = (if ([] :: jsstring) = [] then prev else Some (last []))" by simp
    then show ?thesis by blast
  qed
next
  case (Rep lo hi P)
  then have "(p, t) \<in> set (rep lo hi P prev s)" by simp
  then show ?case by (rule rep_state)
next
  case WordB
  then have "s = [] @ t \<and> p = (if ([] :: jsstring) = [] then prev else Some (last []))"
    by (auto split: if_splits)
  then show ?case by blast
next
  case LineStart
  then have "s = [] @ t \<and> p = (if ([] :: jsstring) = [] then prev else Some (last []))"
    by (auto split: if_splits)
  then show ?case by blast
next
  case LineEnd
  then have "s = [] @ t \<and> p = (if ([] :: jsstring) = [] then prev else Some (last []))"
    by (auto split: if_splits)
  then show ?case by blast
qed

lemma match_here_state:
  assumes "match_here re prev s = Some (mt, (p, t))"
  shows "s = mt @ t \<and> p = (if mt = [] then prev else Some (last mt))"
proof -
  from assms obtain rest where
    mm: "matcher (ignoreCase re) (source re) prev s = (p, t) # rest" and mt: "mt = take (length s - length t) s"
    by (auto simp: match_here_def split: list.splits)
  then have "(p, t) \<in> set (matcher (ignoreCase re) (source re) prev s)" by simp
  from matcher_state [OF this] obtain m where m: "s = m @ t" "p = (if m = [] then prev else Some (last m))"
    by blast
  with mt have "mt = m" by simp
  with m show ?thesis by simp
qed

lemma exec_here: "match_here re prev s = Some r \<Longrightarrow> exec re prev s = Some r"
  by (cases s) simp_all

lemma exec_cases:
  "exec re prev (pre @ s) = exec re (if pre = [] then prev else Some (last pre)) s
   \<or> (\<exists>u v mt p t. pre = u @ v \<and> v \<noteq> []
         \<and> match_here re (if u = [] then prev else Some (last u)) (v @ s) = Some (mt, (p, t))
         \<and> exec re prev (pre @ s) = Some (mt, (p, t)))"
proof (induction pre arbitrary: prev)
  case Nil
  show ?case by simp
next
  case (Cons c pre)
  show ?case
  proof (cases "match_here re prev (c # pre @ s)")
    case None
    then have e: "exec re prev ((c # pre) @ s) = exec re (Some c) (pre @ s)" by simp
    from Cons.IH [of "Some c"] show ?thesis
    proof
      assume "exec re (Some c) (pre @ s) = exec re (if pre = [] then Some c else Some (last pre)) s"
      with e show ?thesis by simp
    next
      assume "\<exists>u v mt p t. pre = u @ v \<and> v \<noteq> []
         \<and> match_here re (if u = [] then Some c else Some (last u)) (v @ s) = Some (mt, (p, t))
         \<and> exec re (Some c) (pre @ s) = Some (mt, (p, t))"
      then obtain u v mt p t where "pre = u @ v" "v \<noteq> []"
        "match_here re (if u = [] then Some c else Some (last u)) (v @ s) = Some (mt, (p, t))"
        "exec re (Some c) (pre @ s) = Some (mt, (p, t))"
        by blast
      then have "c # pre = (c # u) @ v \<and> v \<noteq> []
         \<and> match_here re (if c # u = [] then prev else Some (last (c # u))) (v @ s) = Some (mt, (p, t))
         \<and> exec re prev ((c # pre) @ s) = Some (mt, (p, t))"
        using e by (cases "u = []") simp_all
      then show ?thesis by blast
    qed
  next
    case (Some r)
    obtain mt p t where r: "r = (mt, (p, t))" by (cases r) auto
    have "c # pre = [] @ (c # pre) \<and> c # pre \<noteq> []
         \<and> match_here re (if ([] :: jsstring) = [] then prev else Some (last [])) ((c # pre) @ s) = Some (mt, (p, t))
         \<and> exec re prev ((c # pre) @ s) = Some (mt, (p, t))"
      using Some r by simp
    then show ?thesis by blast
  qed
qed

text \<open>
  The loop of a rule on the text \<open>pre @ rest\<close>. A match that begins in \<open>pre\<close> either
  ends in \<open>pre\<close>, and the next \<open>exec\<close> goes on from its end, or runs into \<open>rest\<close>, and
  the next \<open>exec\<close> starts inside \<open>rest\<close>. The loop reaches \<open>rest\<close> when none of the
  matches it finds begins in \<open>pre\<close> and runs into \<open>rest\<close>.
\<close>

function reaches :: "regexp \<Rightarrow> unit16 option \<Rightarrow> jsstring \<Rightarrow> jsstring \<Rightarrow> bool" where
  "reaches re prev pre rest =
     (case exec re prev (pre @ rest) of
        None \<Rightarrow> True
      | Some (mt, (p, t)) \<Rightarrow>
          if length t + length mt \<le> length rest then True
          else if length t < length rest \<or> mt = [] then False
          else reaches re p (take (length t - length rest) t) rest)"
  by pat_completeness auto
termination
  by (relation "measure (\<lambda>(re, prev, pre, rest). length pre)") (auto dest: exec_shorter)

declare reaches.simps [simp del]

lemma reached_match_listed:
  assumes ml: "0 < min_len (source re)"
  shows "match_here re (if pre = [] then prev else Some (last pre)) (form @ post) = Some (form, st) \<Longrightarrow>
    reaches re prev pre (form @ post) \<Longrightarrow>
    \<exists>ms. exec_loop re prev (pre @ form @ post) = Some ms \<and> form \<in> set ms"
proof (induction "length pre" arbitrary: pre prev rule: less_induct)
  case less
  let ?s = "form @ post"
  let ?last = "if pre = [] then prev else Some (last pre)"
  from match_here_nonempty [OF ml less.prems(1)] have fne: "form \<noteq> []" .
  obtain q w where st: "st = (q, w)" by (cases st)
  from exec_cases [of re prev pre ?s] show ?case
  proof
    assume "exec re prev (pre @ ?s) = exec re ?last ?s"
    with exec_here [OF less.prems(1)] have ex: "exec re prev (pre @ ?s) = Some (form, (q, w))"
      by (simp add: st)
    from exec_loop_total [OF ml, of q w] obtain ms where "exec_loop re q w = Some ms" by blast
    with ex fne have "exec_loop re prev (pre @ ?s) = Some (form # ms)"
      by (intro exec_loop_step) simp_all
    then show ?thesis by simp
  next
    assume "\<exists>u v mt p t. pre = u @ v \<and> v \<noteq> []
         \<and> match_here re (if u = [] then prev else Some (last u)) (v @ ?s) = Some (mt, (p, t))
         \<and> exec re prev (pre @ ?s) = Some (mt, (p, t))"
    then obtain u v mt p t where pre: "pre = u @ v" and vne: "v \<noteq> []"
      and mh: "match_here re (if u = [] then prev else Some (last u)) (v @ ?s) = Some (mt, (p, t))"
      and ex: "exec re prev (pre @ ?s) = Some (mt, (p, t))"
      by blast
    from match_here_nonempty [OF ml mh] have mne: "mt \<noteq> []" .
    from match_here_state [OF mh] have eq: "v @ ?s = mt @ t" and p: "p = Some (last mt)"
      using mne by simp_all
    from eq have len: "length v + length ?s = length mt + length t"
      by (metis length_append)
    with vne have beyond: "\<not> length t + length mt \<le> length ?s" by (cases v) auto
    from less.prems(2) ex beyond mne
    have inside: "\<not> length t < length ?s" and r: "reaches re p (take (length t - length ?s) t) ?s"
      by (auto simp: reaches.simps [of re prev pre ?s] split: if_splits)
    from inside len have "length mt \<le> length v" by simp
    with eq obtain us where us: "v = mt @ us" "t = us @ ?s"
      by (auto simp: append_eq_append_conv2)
    then have tk: "take (length t - length ?s) t = us" by simp
    have shorter: "length us < length pre" using pre us mne by simp
    have lastp: "(if us = [] then p else Some (last us)) = ?last"
      using pre us mne p by simp
    from less.hyps [OF shorter, of p] less.prems(1) r lastp tk
    obtain ms where ms: "exec_loop re p (us @ ?s) = Some ms" "form \<in> set ms" by auto
    from ex mne ms(1) us(2) have "exec_loop re prev (pre @ ?s) = Some (mt # ms)"
      by (intro exec_loop_step [where p = p and t = t]) simp_all
    with ms(2) show ?thesis by simp
  qed
qed

lemma exec_state:
  "exec re prev s = Some (mt, (p, t)) \<Longrightarrow> \<exists>x. s = x @ mt @ t"
proof (induction s arbitrary: prev)
  case Nil
  then have "match_here re prev [] = Some (mt, (p, t))" by simp
  from match_here_state [OF this] have "[] = [] @ mt @ t" by simp
  then show ?case by blast
next
  case (Cons c cs)
  show ?case
  proof (cases "match_here re prev (c # cs)")
    case None
    with Cons.prems have "exec re (Some c) cs = Some (mt, (p, t))" by simp
    from Cons.IH [OF this] obtain x where "cs = x @ mt @ t" by blast
    then have "c # cs = (c # x) @ mt @ t" by simp
    then show ?thesis by blast
  next
    case (Some r)
    with Cons.prems have "match_here re prev (c # cs) = Some (mt, (p, t))" by simp
    from match_here_state [OF this] have "c # cs = [] @ mt @ t" by simp
    then show ?thesis by blast
  qed
qed

lemma no_overlap_reaches:
  assumes ml: "0 < min_len (source re)"
  shows "(\<And>u v mt p t. pre = u @ v \<Longrightarrow> v \<noteq> [] \<Longrightarrow>
            match_here re (if u = [] then prev else Some (last u)) (v @ rest) = Some (mt, (p, t)) \<Longrightarrow>
            length mt \<le> length v) \<Longrightarrow>
         reaches re prev pre rest"
proof (induction "length pre" arbitrary: pre prev rule: less_induct)
  case less
  from exec_cases [of re prev pre rest] show ?case
  proof
    assume e: "exec re prev (pre @ rest) = exec re (if pre = [] then prev else Some (last pre)) rest"
    show ?thesis
    proof (cases "exec re prev (pre @ rest)")
      case None
      then show ?thesis by (simp add: reaches.simps [of re prev pre rest])
    next
      case (Some r)
      obtain mt p t where r: "r = (mt, (p, t))" by (cases r) auto
      from Some r e have "exec re (if pre = [] then prev else Some (last pre)) rest = Some (mt, (p, t))"
        by simp
      from exec_state [OF this] obtain x where "rest = x @ mt @ t" by blast
      then have "length rest = length x + length mt + length t" by simp
      then have "length t + length mt \<le> length rest" by simp
      with Some r show ?thesis by (simp add: reaches.simps [of re prev pre rest])
    qed
  next
    assume "\<exists>u v mt p t. pre = u @ v \<and> v \<noteq> []
         \<and> match_here re (if u = [] then prev else Some (last u)) (v @ rest) = Some (mt, (p, t))
         \<and> exec re prev (pre @ rest) = Some (mt, (p, t))"
    then obtain u v mt p t where pre: "pre = u @ v" and vne: "v \<noteq> []"
      and mh: "match_here re (if u = [] then prev else Some (last u)) (v @ rest) = Some (mt, (p, t))"
      and ex: "exec re prev (pre @ rest) = Some (mt, (p, t))"
      by blast
    from match_here_nonempty [OF ml mh] have mne: "mt \<noteq> []" .
    from match_here_state [OF mh] have eq: "v @ rest = mt @ t" and p: "p = Some (last mt)"
      using mne by simp_all
    from less.prems [OF pre vne mh] have le: "length mt \<le> length v" .
    with eq obtain us where us: "v = mt @ us" "t = us @ rest"
      by (auto simp: append_eq_append_conv2)
    have shorter: "length us < length pre" using pre us mne by simp
    have "reaches re p us rest"
    proof (rule less.hyps [OF shorter])
      fix u' v' mt' p' t'
      assume a: "us = u' @ v'" "v' \<noteq> []"
        "match_here re (if u' = [] then p else Some (last u')) (v' @ rest) = Some (mt', (p', t'))"
      have split: "pre = (u @ mt @ u') @ v'" using pre us a(1) by simp
      have "(if u @ mt @ u' = [] then prev else Some (last (u @ mt @ u')))
          = (if u' = [] then p else Some (last u'))"
        using mne p by simp
      with a(3) have "match_here re (if u @ mt @ u' = [] then prev else Some (last (u @ mt @ u')))
          (v' @ rest) = Some (mt', (p', t'))"
        by simp
      from less.prems [OF split a(2) this] show "length mt' \<le> length v'" .
    qed
    moreover have "\<not> length t + length mt \<le> length rest" using us mne by simp
    moreover have "\<not> length t < length rest" using us by simp
    moreover have "take (length t - length rest) t = us" using us by simp
    ultimately show ?thesis
      using ex mne by (simp add: reaches.simps [of re prev pre rest])
  qed
qed

text \<open>
  An expression for four groups of four digits can only run into a card number that
  stands after a group of four digits and a separator.
\<close>

definition after_group :: "(unit16 \<Rightarrow> bool) \<Rightarrow> jsstring \<Rightarrow> bool" where
  \<comment> \<open>\<open>pre\<close> ends in a group of four digits and a separator, and what is before the
      group is not a word character\<close>
  "after_group sep pre =
     (5 \<le> length pre \<and> sep (last pre)
      \<and> list_all is_digit (take 4 (drop (length pre - 5) pre))
      \<and> \<not> word_before (last_unit (take (length pre - 5) pre)))"

lemma after_group_append:
  "after_group sep (w @ [x1, x2, x3, x4, s])
     = (sep s \<and> is_digit x1 \<and> is_digit x2 \<and> is_digit x3 \<and> is_digit x4 \<and> \<not> word_before (last_unit w))"
  by (auto simp: after_group_def)

lemma length19:
  assumes "length xs = 19"
  obtains c1 c2 c3 c4 c5 c6 c7 c8 c9 c10 c11 c12 c13 c14 c15 c16 c17 c18 c19
  where "xs = [c1, c2, c3, c4, c5, c6, c7, c8, c9, c10, c11, c12, c13, c14, c15, c16, c17, c18, c19]"
  using assms by (auto simp: length_Suc_conv eval_nat_numeral)

lemma prefix19:
  assumes "19 \<le> length s"
  obtains c1 c2 c3 c4 c5 c6 c7 c8 c9 c10 c11 c12 c13 c14 c15 c16 c17 c18 c19 s'
  where "s = [c1, c2, c3, c4, c5, c6, c7, c8, c9, c10, c11, c12, c13, c14, c15, c16, c17, c18, c19] @ s'"
proof -
  have "length (take 19 s) = 19" using assms by simp
  then obtain c1 c2 c3 c4 c5 c6 c7 c8 c9 c10 c11 c12 c13 c14 c15 c16 c17 c18 c19
    where "take 19 s = [c1, c2, c3, c4, c5, c6, c7, c8, c9, c10, c11, c12, c13, c14, c15, c16, c17, c18, c19]"
    by (rule length19)
  then have "s = [c1, c2, c3, c4, c5, c6, c7, c8, c9, c10, c11, c12, c13, c14, c15, c16, c17, c18, c19] @ drop 19 s"
    by (metis append_take_drop_id)
  then show ?thesis by (rule that)
qed

lemma spaced_match_shape:
  assumes "match_here (RegExp re_card_spaced False) prev s = Some (mt, (p, t))"
  shows "\<exists>c1 c2 c3 c4 c5 c6 c7 c8 c9 c10 c11 c12 c13 c14 c15 c16 c17 c18 c19.
      mt = [c1, c2, c3, c4, c5, c6, c7, c8, c9, c10, c11, c12, c13, c14, c15, c16, c17, c18, c19]
      \<and> list_all is_digit [c1, c2, c3, c4, c6, c7, c8, c9, c11, c12, c13, c14, c16, c17, c18, c19]
      \<and> is_space c5 \<and> is_space c10 \<and> is_space c15
      \<and> \<not> word_before prev \<and> \<not> word_after t"
proof -
  from assms obtain rest where
    mm: "matcher False re_card_spaced prev s = (p, t) # rest"
    by (auto simp: match_here_def RegExp_def split: list.splits)
  then have "(p, t) \<in> set (matcher False re_card_spaced prev s)" by simp
  from matcher_length [OF this] have "19 \<le> length s"
    by (simp add: re_card_spaced_def digit_run_def)
  then obtain c1 c2 c3 c4 c5 c6 c7 c8 c9 c10 c11 c12 c13 c14 c15 c16 c17 c18 c19 s'
    where s: "s = [c1, c2, c3, c4, c5, c6, c7, c8, c9, c10, c11, c12, c13, c14, c15, c16, c17, c18, c19] @ s'"
    by (rule prefix19)
  from assms have "mt = [c1, c2, c3, c4, c5, c6, c7, c8, c9, c10, c11, c12, c13, c14, c15, c16, c17, c18, c19]
      \<and> list_all is_digit [c1, c2, c3, c4, c6, c7, c8, c9, c11, c12, c13, c14, c16, c17, c18, c19]
      \<and> is_space c5 \<and> is_space c10 \<and> is_space c15
      \<and> \<not> word_before prev \<and> \<not> word_after t"
    unfolding s
    by (simp add: match_here_def RegExp_def re_card_spaced_def digit_run_def rep_done
        word_after_def [of "_ # _"] word_before_def [of "Some _"] digit_is_word
        split: if_splits list.splits)
  then show ?thesis by blast
qed

lemma dashed_match_shape:
  assumes "match_here (RegExp re_card_dashed False) prev s = Some (mt, (p, t))"
  shows "\<exists>c1 c2 c3 c4 c5 c6 c7 c8 c9 c10 c11 c12 c13 c14 c15 c16 c17 c18 c19.
      mt = [c1, c2, c3, c4, c5, c6, c7, c8, c9, c10, c11, c12, c13, c14, c15, c16, c17, c18, c19]
      \<and> list_all is_digit [c1, c2, c3, c4, c6, c7, c8, c9, c11, c12, c13, c14, c16, c17, c18, c19]
      \<and> c5 = 45 \<and> c10 = 45 \<and> c15 = 45
      \<and> \<not> word_before prev \<and> \<not> word_after t"
proof -
  from assms obtain rest where
    mm: "matcher False re_card_dashed prev s = (p, t) # rest"
    by (auto simp: match_here_def RegExp_def split: list.splits)
  then have "(p, t) \<in> set (matcher False re_card_dashed prev s)" by simp
  from matcher_length [OF this] have "19 \<le> length s"
    by (simp add: re_card_dashed_def digit_run_def)
  then obtain c1 c2 c3 c4 c5 c6 c7 c8 c9 c10 c11 c12 c13 c14 c15 c16 c17 c18 c19 s'
    where s: "s = [c1, c2, c3, c4, c5, c6, c7, c8, c9, c10, c11, c12, c13, c14, c15, c16, c17, c18, c19] @ s'"
    by (rule prefix19)
  from assms have "mt = [c1, c2, c3, c4, c5, c6, c7, c8, c9, c10, c11, c12, c13, c14, c15, c16, c17, c18, c19]
      \<and> list_all is_digit [c1, c2, c3, c4, c6, c7, c8, c9, c11, c12, c13, c14, c16, c17, c18, c19]
      \<and> c5 = 45 \<and> c10 = 45 \<and> c15 = 45
      \<and> \<not> word_before prev \<and> \<not> word_after t"
    unfolding s
    by (simp add: match_here_def RegExp_def re_card_dashed_def digit_run_def rep_done str_def
        word_after_def [of "_ # _"] word_before_def [of "Some _"] digit_is_word
        split: if_splits list.splits)
  then show ?thesis by blast
qed

lemma append_split:
  "a @ b = c @ d \<Longrightarrow> length c \<le> length a \<Longrightarrow> \<exists>e. a = c @ e \<and> d = e @ b"
  by (auto simp: append_eq_append_conv2)

lemma group_overlap:
  assumes mt: "mt = [c1, c2, c3, c4, c5, c6, c7, c8, c9, c10, c11, c12, c13, c14, c15, c16, c17, c18, c19]"
    and dg: "list_all is_digit [c1, c2, c3, c4, c6, c7, c8, c9, c11, c12, c13, c14, c16, c17, c18, c19]"
    and sp: "sep c5" "sep c10" "sep c15"
    and nw: "\<And>c. sep c \<Longrightarrow> \<not> is_word c"
    and ds: "list_all is_digit [d1, d2, d3, d4, d5, d6, d7, d8, d9, d10, d11, d12, d13, d14, d15, d16]"
    and eq: "v @ grouped x [d1, d2, d3, d4, d5, d6, d7, d8, d9, d10, d11, d12, d13, d14, d15, d16] @ post = mt @ t"
    and vne: "v \<noteq> []"
    and short: "length v < length mt"
    and wb: "\<not> word_before (last_unit u)"
    and wa: "\<not> word_after t"
  shows "after_group sep (u @ v)"
proof -
  let ?form = "[d1, d2, d3, d4, x, d5, d6, d7, d8, x, d9, d10, d11, d12, x, d13, d14, d15, d16]"
  have form: "grouped x [d1, d2, d3, d4, d5, d6, d7, d8, d9, d10, d11, d12, d13, d14, d15, d16] = ?form"
    by (simp add: grouped_def)
  from eq short obtain w where w: "mt = v @ w" "?form @ post = w @ t"
    unfolding form by (auto simp: append_eq_append_conv2)
  have l19: "length mt = 19" by (simp add: mt)
  from arg_cong [OF w(1), of length] l19 have total: "length v + length w = 19" by simp
  have vpos: "0 < length v" using vne by simp
  from short l19 have vlt: "length v < 19" by simp
  from total vpos vlt have wlen: "0 < length w" "length w < 19" by arith+
  from w(1) have tk: "v = take (length v) mt" by simp
  have "length w \<le> length ?form" using wlen(2) by simp
  from append_split [OF w(2) this] obtain y where y: "?form = w @ y" "t = y @ post"
    by blast
  from arg_cong [OF y(1), of length] wlen(2) have yne: "y \<noteq> []" by auto
  have "(w @ y) ! length w = hd y" using yne by (simp add: nth_append hd_conv_nth)
  with y(1) have hd: "hd y = ?form ! length w" by simp
  from wa y(2) yne have "\<not> is_word (hd y)" by (cases y) (simp_all add: word_after_def)
  with hd have nd: "\<not> is_digit (?form ! length w)" by (auto dest: digit_is_word)
  have "length w \<in> {4, 9, 14}"
  proof (rule ccontr)
    assume "length w \<notin> {4, 9, 14}"
    with wlen ds have "is_digit (?form ! length w)"
      by (auto simp: less_Suc_eq eval_nat_numeral)
    with nd show False by simp
  qed
  with total consider "length v = 15" | "length v = 10" | "length v = 5" by auto
  then show ?thesis
  proof cases
    case 1
    with tk have "v = [c1, c2, c3, c4, c5, c6, c7, c8, c9, c10] @ [c11, c12, c13, c14, c15]"
      by (simp add: mt)
    then have "u @ v = (u @ [c1, c2, c3, c4, c5, c6, c7, c8, c9, c10]) @ [c11, c12, c13, c14, c15]" by simp
    then show ?thesis
      using dg sp nw [OF sp(2)] by (simp only: after_group_append) (simp add: last_unit_def word_before_def)
  next
    case 2
    with tk have "v = [c1, c2, c3, c4, c5] @ [c6, c7, c8, c9, c10]"
      by (simp add: mt)
    then have "u @ v = (u @ [c1, c2, c3, c4, c5]) @ [c6, c7, c8, c9, c10]" by simp
    then show ?thesis
      using dg sp nw [OF sp(1)] by (simp only: after_group_append) (simp add: last_unit_def word_before_def)
  next
    case 3
    with tk have "v = [c1, c2, c3, c4, c5]"
      by (simp add: mt)
    then show ?thesis
      using dg sp wb by (simp add: after_group_append)
  qed
qed

lemma spaced_reaches:
  assumes ds: "length ds = 16" "list_all is_digit ds"
    and pre: "\<not> after_group is_space pre"
  shows "reaches (RegExp re_card_spaced False) None pre (grouped 32 ds @ post)"
proof (rule no_overlap_reaches)
  show "0 < min_len (source (RegExp re_card_spaced False))"
    by (simp add: RegExp_def re_card_spaced_def digit_run_def)
next
  fix u v mt p t
  assume split: "pre = u @ v" and vne: "v \<noteq> []"
    and mh: "match_here (RegExp re_card_spaced False) (if u = [] then None else Some (last u))
        (v @ grouped 32 ds @ post) = Some (mt, (p, t))"
  from ds(1) obtain d1 d2 d3 d4 d5 d6 d7 d8 d9 d10 d11 d12 d13 d14 d15 d16
    where e: "ds = [d1, d2, d3, d4, d5, d6, d7, d8, d9, d10, d11, d12, d13, d14, d15, d16]"
    by (rule length16)
  from spaced_match_shape [OF mh]
  obtain c1 c2 c3 c4 c5 c6 c7 c8 c9 c10 c11 c12 c13 c14 c15 c16 c17 c18 c19 where
    mt: "mt = [c1, c2, c3, c4, c5, c6, c7, c8, c9, c10, c11, c12, c13, c14, c15, c16, c17, c18, c19]"
    and dg: "list_all is_digit [c1, c2, c3, c4, c6, c7, c8, c9, c11, c12, c13, c14, c16, c17, c18, c19]"
    and sp: "is_space c5" "is_space c10" "is_space c15"
    and wb: "\<not> word_before (if u = [] then None else Some (last u))" and wa: "\<not> word_after t"
    by blast
  from match_here_state [OF mh] have eq: "v @ grouped 32 ds @ post = mt @ t" by simp
  have nw: "\<not> is_word c" if "is_space c" for c
    using that by (auto simp: is_space_def is_word_def is_alnum_def is_alpha_def is_digit_def
        is_upper_def is_lower_def is_line_terminator_def)
  show "length mt \<le> length v"
  proof (rule ccontr)
    assume "\<not> length mt \<le> length v"
    then have short: "length v < length mt" by simp
    have "after_group is_space (u @ v)"
      by (rule group_overlap [OF mt dg sp nw ds(2) [unfolded e] eq [unfolded e] vne short _ wa])
        (use wb in \<open>simp_all add: last_unit_def\<close>)
    with pre split show False by simp
  qed
qed

lemma dashed_reaches:
  assumes ds: "length ds = 16" "list_all is_digit ds"
    and pre: "\<not> after_group (\<lambda>c. c = 45) pre"
  shows "reaches (RegExp re_card_dashed False) None pre (grouped 45 ds @ post)"
proof (rule no_overlap_reaches)
  show "0 < min_len (source (RegExp re_card_dashed False))"
    by (simp add: RegExp_def re_card_dashed_def digit_run_def)
next
  fix u v mt p t
  assume split: "pre = u @ v" and vne: "v \<noteq> []"
    and mh: "match_here (RegExp re_card_dashed False) (if u = [] then None else Some (last u))
        (v @ grouped 45 ds @ post) = Some (mt, (p, t))"
  from ds(1) obtain d1 d2 d3 d4 d5 d6 d7 d8 d9 d10 d11 d12 d13 d14 d15 d16
    where e: "ds = [d1, d2, d3, d4, d5, d6, d7, d8, d9, d10, d11, d12, d13, d14, d15, d16]"
    by (rule length16)
  from dashed_match_shape [OF mh]
  obtain c1 c2 c3 c4 c5 c6 c7 c8 c9 c10 c11 c12 c13 c14 c15 c16 c17 c18 c19 where
    mt: "mt = [c1, c2, c3, c4, c5, c6, c7, c8, c9, c10, c11, c12, c13, c14, c15, c16, c17, c18, c19]"
    and dg: "list_all is_digit [c1, c2, c3, c4, c6, c7, c8, c9, c11, c12, c13, c14, c16, c17, c18, c19]"
    and sp: "c5 = 45" "c10 = 45" "c15 = 45"
    and wb: "\<not> word_before (if u = [] then None else Some (last u))" and wa: "\<not> word_after t"
    by blast
  from match_here_state [OF mh] have eq: "v @ grouped 45 ds @ post = mt @ t" by simp
  have nw: "\<not> is_word c" if "c = 45" for c
    using that by (simp add: is_word_def is_alnum_def is_alpha_def is_digit_def
        is_upper_def is_lower_def)
  show "length mt \<le> length v"
  proof (rule ccontr)
    assume "\<not> length mt \<le> length v"
    then have short: "length v < length mt" by simp
    have "after_group (\<lambda>c. c = 45) (u @ v)"
      by (rule group_overlap [where sep = "\<lambda>c. c = 45", OF mt dg sp nw ds(2) [unfolded e] eq [unfolded e] vne short _ wa])
        (use wb in \<open>simp_all add: last_unit_def\<close>)
    with pre split show False by simp
  qed
qed

lemma card_spaced_detected:
  assumes ds: "length ds = 16" "list_all is_digit ds" "luhnCheck (grouped 32 ds)"
    and pre: "reaches (RegExp re_card_spaced False) None pre (grouped 32 ds @ post)"
      "\<not> word_before (last_unit pre)"
    and post: "\<not> word_after post"
    and len: "length (pre @ grouped 32 ds @ post) \<le> MAX_SCAN_LENGTH"
  shows "\<exists>res n. scanText (JString (pre @ grouped 32 ds @ post)) = Some res
            \<and> res CREDIT_CARD = Some n \<and> 1 \<le> n"
proof -
  let ?p = "rule CREDIT_CARD re_card_spaced False (Some validate_luhn)"
  let ?re = "RegExp re_card_spaced False"
  from ds(1) obtain d1 d2 d3 d4 d5 d6 d7 d8 d9 d10 d11 d12 d13 d14 d15 d16
    where e: "ds = [d1, d2, d3, d4, d5, d6, d7, d8, d9, d10, d11, d12, d13, d14, d15, d16]"
    by (rule length16)
  have hit: "match_here ?re (if pre = [] then None else Some (last pre)) (grouped 32 ds @ post)
      = Some (grouped 32 ds, (Some d16, post))"
    unfolding e by (rule match_card_spaced) (use ds(2) pre(2) post in \<open>simp_all add: e last_unit_def\<close>)
  have ml: "0 < min_len (source ?re)" by (simp add: RegExp_def re_card_spaced_def digit_run_def)
  from reached_match_listed [OF ml hit pre(1)]
  obtain ms where "exec_loop ?re None (pre @ grouped 32 ds @ post) = Some ms" "grouped 32 ds \<in> set ms"
    by blast
  then have m1: "grouped 32 ds \<in> set (matches_of ?p (pre @ grouped 32 ds @ post))"
    by (simp add: matches_of_def exec_all_def rule_def RegExp_def)
  have ne: "pre @ grouped 32 ds @ post \<noteq> []" by (simp add: grouped_def)
  show ?thesis
    by (rule card_rule_detects_listed [OF _ _ _ m1 ds(3) ne len]) (simp_all add: PATTERNS_def rule_def)
qed

lemma card_dashed_detected:
  assumes ds: "length ds = 16" "list_all is_digit ds" "luhnCheck (grouped 45 ds)"
    and pre: "reaches (RegExp re_card_dashed False) None pre (grouped 45 ds @ post)"
      "\<not> word_before (last_unit pre)"
    and post: "\<not> word_after post"
    and len: "length (pre @ grouped 45 ds @ post) \<le> MAX_SCAN_LENGTH"
  shows "\<exists>res n. scanText (JString (pre @ grouped 45 ds @ post)) = Some res
            \<and> res CREDIT_CARD = Some n \<and> 1 \<le> n"
proof -
  let ?p = "rule CREDIT_CARD re_card_dashed False (Some validate_luhn)"
  let ?re = "RegExp re_card_dashed False"
  from ds(1) obtain d1 d2 d3 d4 d5 d6 d7 d8 d9 d10 d11 d12 d13 d14 d15 d16
    where e: "ds = [d1, d2, d3, d4, d5, d6, d7, d8, d9, d10, d11, d12, d13, d14, d15, d16]"
    by (rule length16)
  have hit: "match_here ?re (if pre = [] then None else Some (last pre)) (grouped 45 ds @ post)
      = Some (grouped 45 ds, (Some d16, post))"
    unfolding e by (rule match_card_dashed) (use ds(2) pre(2) post in \<open>simp_all add: e last_unit_def\<close>)
  have ml: "0 < min_len (source ?re)" by (simp add: RegExp_def re_card_dashed_def digit_run_def)
  from reached_match_listed [OF ml hit pre(1)]
  obtain ms where "exec_loop ?re None (pre @ grouped 45 ds @ post) = Some ms" "grouped 45 ds \<in> set ms"
    by blast
  then have m1: "grouped 45 ds \<in> set (matches_of ?p (pre @ grouped 45 ds @ post))"
    by (simp add: matches_of_def exec_all_def rule_def RegExp_def)
  have ne: "pre @ grouped 45 ds @ post \<noteq> []" by (simp add: grouped_def)
  show ?thesis
    by (rule card_rule_detects_listed [OF _ _ _ m1 ds(3) ne len]) (simp_all add: PATTERNS_def rule_def)
qed

lemma card_entry_sound:
  assumes "scanText (JString t) = Some res" and "res CREDIT_CARD \<noteq> None"
  shows "\<exists>p \<in> set PATTERNS. name p = CREDIT_CARD \<and> (\<exists>mt \<in> set (matches_of p t). passes_luhn mt)"
proof -
  have ne: "t \<noteq> []" and len: "length t \<le> MAX_SCAN_LENGTH"
    using assms by (auto simp: scanText_def scan_with_def split: if_splits)
  from scanText_counts [OF ne len, of CREDIT_CARD] assms
  have "tally PATTERNS t CREDIT_CARD \<noteq> 0" by (auto split: if_splits)
  then obtain p where p: "p \<in> set PATTERNS" "name p = CREDIT_CARD" "hits p t \<noteq> 0"
    by (auto simp: tally_def split: if_splits)
  from p(3) have "accepted p t \<noteq> {}" by (auto simp: hits_def split: if_splits)
  then obtain mt where mt: "mt \<in> set (matches_of p t)" "verdict p t mt = Some True"
    by (auto simp: accepted_def)
  from card_rules p(1,2) have "validate p = Some validate_luhn" by blast
  with mt(2) p(2) have "luhnCheck mt" by (simp add: verdict_def validate_luhn_def)
  with p(1,2) mt(1) show ?thesis by (auto simp: luhnCheck_refines)
qed

lemma sample_card_number: "card_number (str ''4111111111111111'')"
  by (simp add: card_number_def luhnCheck_refines [symmetric] luhnCheck_def str_def is_digit_def)

text \<open>
  C3, as amended. A candidate match of a credit-card rule is accepted if and only if its
  digit-only form has between 13 and 19 digits and passes the Luhn checksum. For every
  text of at most 500,000 code units in which a Luhn-valid 16-digit card number stands
  between non-word characters or the ends of the text, and in which, when the number is
  in spaced (4-4-4-4) or dashed form, no earlier match of the same rule runs into the
  number, \<open>scanText\<close> reports Credit cards with count at least 1. No earlier match runs
  into the number when the text before it does not end in a group of exactly four digits
  and the separator of the rule, white space for the spaced form and a dash for the
  dashed form. An entry for Credit cards comes only from a match that passes the
  checksum, and the text \<open>4111111111111112\<close> produces none.
\<close>

theorem credit_card_luhn_validated:
  "(\<forall>p \<in> set PATTERNS. name p = CREDIT_CARD \<longrightarrow> verdict p text mt = Some (passes_luhn mt))
   \<and> (card_number ds \<and> \<not> word_before (last_unit pre) \<and> \<not> word_after post
        \<and> (form = ds
            \<or> form = grouped 32 ds \<and> reaches (RegExp re_card_spaced False) None pre (form @ post)
            \<or> form = grouped 45 ds \<and> reaches (RegExp re_card_dashed False) None pre (form @ post))
        \<and> length (pre @ form @ post) \<le> MAX_SCAN_LENGTH
      \<longrightarrow> (\<exists>res n. scanText (JString (pre @ form @ post)) = Some res
             \<and> res CREDIT_CARD = Some n \<and> 1 \<le> n))
   \<and> (card_number ds \<longrightarrow>
        (\<not> after_group is_space pre \<longrightarrow>
           reaches (RegExp re_card_spaced False) None pre (grouped 32 ds @ post))
        \<and> (\<not> after_group (\<lambda>c. c = 45) pre \<longrightarrow>
           reaches (RegExp re_card_dashed False) None pre (grouped 45 ds @ post)))
   \<and> (\<forall>res. scanText (JString text) = Some res \<and> res CREDIT_CARD \<noteq> None \<longrightarrow>
        (\<exists>p \<in> set PATTERNS. name p = CREDIT_CARD \<and> (\<exists>mt \<in> set (matches_of p text). passes_luhn mt)))
   \<and> scanText (JString (str ''4111111111111112'')) = Some Map.empty"
proof (intro conjI impI allI ballI)
  fix p assume "p \<in> set PATTERNS" "name p = CREDIT_CARD"
  with card_rules have "validate p = Some validate_luhn" by blast
  with \<open>name p = CREDIT_CARD\<close> show "verdict p text mt = Some (passes_luhn mt)"
    by (simp add: verdict_def validate_luhn_def luhnCheck_refines)
next
  assume a: "card_number ds \<and> \<not> word_before (last_unit pre) \<and> \<not> word_after post
        \<and> (form = ds
            \<or> form = grouped 32 ds \<and> reaches (RegExp re_card_spaced False) None pre (form @ post)
            \<or> form = grouped 45 ds \<and> reaches (RegExp re_card_dashed False) None pre (form @ post))
        \<and> length (pre @ form @ post) \<le> MAX_SCAN_LENGTH"
  then have ds: "length ds = 16" "list_all is_digit ds" "passes_luhn ds"
    by (simp_all add: card_number_def)
  from a have pre: "\<not> word_before (last_unit pre)"
    and post: "\<not> word_after post" and len: "length (pre @ form @ post) \<le> MAX_SCAN_LENGTH"
    by simp_all
  have sp: "\<not> is_digit 32" and da: "\<not> is_digit 45" by (simp_all add: is_digit_def)
  from a consider "form = ds"
    | "form = grouped 32 ds" "reaches (RegExp re_card_spaced False) None pre (grouped 32 ds @ post)"
    | "form = grouped 45 ds" "reaches (RegExp re_card_dashed False) None pre (grouped 45 ds @ post)"
    by auto
  then show "\<exists>res n. scanText (JString (pre @ form @ post)) = Some res
             \<and> res CREDIT_CARD = Some n \<and> 1 \<le> n"
  proof cases
    case 1
    with card_plain_detected [OF ds(1,2) _ pre post] ds(3) len show ?thesis
      by (simp add: luhnCheck_refines)
  next
    case 2
    with card_spaced_detected [OF ds(1,2) _ _ pre post] ds len show ?thesis
      by (simp add: luhnCheck_refines passes_luhn_grouped [OF ds(2) sp])
  next
    case 3
    with card_dashed_detected [OF ds(1,2) _ _ pre post] ds len show ?thesis
      by (simp add: luhnCheck_refines passes_luhn_grouped [OF ds(2) da])
  qed
next
  assume "card_number ds" "\<not> after_group is_space pre"
  then show "reaches (RegExp re_card_spaced False) None pre (grouped 32 ds @ post)"
    by (intro spaced_reaches) (simp_all add: card_number_def)
next
  assume "card_number ds" "\<not> after_group (\<lambda>c. c = 45) pre"
  then show "reaches (RegExp re_card_dashed False) None pre (grouped 45 ds @ post)"
    by (intro dashed_reaches) (simp_all add: card_number_def)
next
  fix res assume "scanText (JString text) = Some res \<and> res CREDIT_CARD \<noteq> None"
  then show "\<exists>p \<in> set PATTERNS. name p = CREDIT_CARD \<and> (\<exists>mt \<in> set (matches_of p text). passes_luhn mt)"
    using card_entry_sound [of "text" res] by simp
next
  show "scanText (JString (str ''4111111111111112'')) = Some Map.empty"
    by (simp add: scan_defs regex_defs class_defs)
qed

theorem credit_card_luhn_validated_witness:
  "verdict (rule CREDIT_CARD re_card_spaced False (Some validate_luhn))
      (str ''card: 4111 1111 1111 1111.'') (str ''4111 1111 1111 1111'') = Some True
   \<and> (\<exists>res n. scanText (JString (str ''order 12345: '' @ grouped 32 (str ''4111111111111111'') @ str ''.'')) = Some res
         \<and> res CREDIT_CARD = Some n \<and> 1 \<le> n)
   \<and> (\<exists>res n. scanText (JString (str ''1111 2222 3333 4444 '' @ grouped 32 (str ''4111111111111111'') @ [])) = Some res
         \<and> res CREDIT_CARD = Some n \<and> 1 \<le> n)
   \<and> (\<exists>res n. scanText (JString (str ''2024-01-15 '' @ grouped 45 (str ''4111111111111111'') @ [])) = Some res
         \<and> res CREDIT_CARD = Some n \<and> 1 \<le> n)
   \<and> (\<exists>res n. scanText (JString (str ''order 12345: '' @ str ''4111111111111111'' @ [])) = Some res
         \<and> res CREDIT_CARD = Some n \<and> 1 \<le> n)
   \<and> reaches (RegExp re_card_spaced False) None (str ''order 12345 '')
        (grouped 32 (str ''4111111111111111'') @ [])"
proof -
  let ?t = "str ''card: 4111 1111 1111 1111.''"
  let ?m = "str ''4111 1111 1111 1111''"
  let ?ds = "str ''4111111111111111''"
  note spaced = credit_card_luhn_validated
    [of ?t ?m ?ds "str ''order 12345: ''" "str ''.''" "grouped 32 ?ds"]
  note chained = credit_card_luhn_validated
    [of ?t ?m ?ds "str ''1111 2222 3333 4444 ''" "[]" "grouped 32 ?ds"]
  note dashed = credit_card_luhn_validated
    [of ?t ?m ?ds "str ''2024-01-15 ''" "[]" "grouped 45 ?ds"]
  note plain = credit_card_luhn_validated
    [of ?t ?m ?ds "str ''order 12345: ''" "[]" ?ds]
  note syntactic = credit_card_luhn_validated
    [of ?t ?m ?ds "str ''order 12345 ''" "[]" ?ds]
  have v: "passes_luhn ?m"
    by (simp add: luhnCheck_refines [symmetric] luhnCheck_def str_def is_digit_def)
  have r: "rule CREDIT_CARD re_card_spaced False (Some validate_luhn) \<in> set PATTERNS"
    "name (rule CREDIT_CARD re_card_spaced False (Some validate_luhn)) = CREDIT_CARD"
    by (simp_all add: PATTERNS_def rule_def)
  have h1: "\<not> word_before (last_unit (str ''order 12345: ''))" "\<not> word_after (str ''.'')"
    "length (str ''order 12345: '' @ grouped 32 ?ds @ str ''.'') \<le> MAX_SCAN_LENGTH"
    by (simp_all add: str_def class_defs last_unit_def grouped_def MAX_SCAN_LENGTH_def)
  have r1: "reaches (RegExp re_card_spaced False) None (str ''order 12345: '') (grouped 32 ?ds @ str ''.'')"
    by (simp add: reaches.simps grouped_def str_def RegExp_def match_here_def re_card_spaced_def
        digit_run_def class_defs)
  have h2: "\<not> word_before (last_unit (str ''1111 2222 3333 4444 ''))" "\<not> word_after []"
    "length (str ''1111 2222 3333 4444 '' @ grouped 32 ?ds @ []) \<le> MAX_SCAN_LENGTH"
    by (simp_all add: str_def class_defs last_unit_def grouped_def MAX_SCAN_LENGTH_def)
  have r2: "reaches (RegExp re_card_spaced False) None (str ''1111 2222 3333 4444 '') (grouped 32 ?ds @ [])"
    by (simp add: reaches.simps grouped_def str_def RegExp_def match_here_def re_card_spaced_def
        digit_run_def class_defs)
  have h3: "\<not> word_before (last_unit (str ''2024-01-15 ''))"
    "length (str ''2024-01-15 '' @ grouped 45 ?ds @ []) \<le> MAX_SCAN_LENGTH"
    by (simp_all add: str_def class_defs last_unit_def grouped_def MAX_SCAN_LENGTH_def)
  have r3: "reaches (RegExp re_card_dashed False) None (str ''2024-01-15 '') (grouped 45 ?ds @ [])"
    by (simp add: reaches.simps grouped_def str_def RegExp_def match_here_def re_card_dashed_def
        digit_run_def class_defs)
  have h4: "length (str ''order 12345: '' @ ?ds @ []) \<le> MAX_SCAN_LENGTH"
    by (simp add: str_def MAX_SCAN_LENGTH_def)
  have h5: "\<not> after_group is_space (str ''order 12345 '')"
    by (simp add: after_group_def str_def class_defs last_unit_def)
  from spaced v r h1 r1 sample_card_number
  have a: "verdict (rule CREDIT_CARD re_card_spaced False (Some validate_luhn)) ?t ?m = Some True
    \<and> (\<exists>res n. scanText (JString (str ''order 12345: '' @ grouped 32 ?ds @ str ''.'')) = Some res
         \<and> res CREDIT_CARD = Some n \<and> 1 \<le> n)"
    by simp
  from chained h2 r2 sample_card_number
  have b: "\<exists>res n. scanText (JString (str ''1111 2222 3333 4444 '' @ grouped 32 ?ds @ [])) = Some res
         \<and> res CREDIT_CARD = Some n \<and> 1 \<le> n"
    by simp
  from dashed h2(2) h3 r3 sample_card_number
  have c: "\<exists>res n. scanText (JString (str ''2024-01-15 '' @ grouped 45 ?ds @ [])) = Some res
         \<and> res CREDIT_CARD = Some n \<and> 1 \<le> n"
    by simp
  from plain h1(1) h2(2) h4 sample_card_number
  have d: "\<exists>res n. scanText (JString (str ''order 12345: '' @ ?ds @ [])) = Some res
         \<and> res CREDIT_CARD = Some n \<and> 1 \<le> n"
    by simp
  from syntactic h5 sample_card_number
  have e: "reaches (RegExp re_card_spaced False) None (str ''order 12345 '') (grouped 32 ?ds @ [])"
    by simp
  from a b c d e show ?thesis by simp
qed

text \<open>
  C3 as stated fails where the expression finds no word boundary: in
  \<open>card_4111111111111111\<close> the Luhn-valid number follows an underscore, a word character,
  and the result is empty.
\<close>

theorem credit_card_no_boundary_counterexample:
  "card_number (str ''4111111111111111'')
   \<and> scanText (JString (str ''card_'' @ str ''4111111111111111'')) = Some Map.empty"
proof -
  have "scanText (JString (str ''card_'' @ str ''4111111111111111'')) = Some Map.empty"
    by (simp add: scan_defs regex_defs class_defs)
  with sample_card_number show ?thesis by simp
qed

text \<open>
  A card number after other groups of digits is missed when the rule matches the groups
  before it together with the first groups of the number, and that match fails the
  checksum: after three groups the loop does not reach the number, and the result is
  empty. After four groups the loop matches them and then the number.
\<close>

lemma card_after_digit_groups_missed:
  "\<not> reaches (RegExp re_card_spaced False) None (str ''1111 2222 3333 '')
        (grouped 32 (str ''4111111111111111''))
   \<and> scanText (JString (str ''1111 2222 3333 '' @ grouped 32 (str ''4111111111111111''))) = Some Map.empty"
proof
  show "\<not> reaches (RegExp re_card_spaced False) None (str ''1111 2222 3333 '')
        (grouped 32 (str ''4111111111111111''))"
    by (simp add: reaches.simps grouped_def str_def RegExp_def match_here_def re_card_spaced_def
        digit_run_def class_defs)
  show "scanText (JString (str ''1111 2222 3333 '' @ grouped 32 (str ''4111111111111111''))) = Some Map.empty"
    by (simp add: grouped_def scan_defs regex_defs class_defs)
qed

section \<open>The submission guard\<close>

text \<open>
  The listeners of the content script run on the page's single thread. A turn is what
  runs synchronously: a listener up to its first \<open>await\<close>, the rest of an async function
  when its promise resolves, a timer callback, the listener of a banner button. A turn
  maps the state of the guard to a new state and a trace, the list of what it did, in
  order. \<open>Later t\<close> in a trace is the point where control leaves the turn: \<open>t\<close> is what
  runs in a later turn. \<open>Replay r tr\<close> is a synthetic event that the turn dispatches
  (\<open>el.click()\<close>, \<open>input.dispatchEvent\<close>): dispatching is synchronous, so the listeners of
  the script run on it inside the turn, and \<open>tr\<close> is what they do to that event.

  The page is what the locators report at the time of the turn: whether
  \<open>findPromptInput()\<close> finds an input, the text \<open>getInputText\<close> reads from it, whether
  it contains \<open>document.activeElement\<close>, and what the retry's \<open>querySelector\<close> finds.
  Of an element the listeners use \<open>isSendButton(el)\<close> and whether it is inside the
  banner. The guard state is the module's variables \<open>allowNextSend\<close>, \<open>bannerEl\<close> (with
  the callbacks the banner was given: whose they are) and \<open>lastSendButton\<close>;
  \<open>lastInput\<close> is written and never read.
\<close>

text \<open>
  \<open>scanText\<close> always returns on a string, so the listeners read its result directly.
\<close>

lemma scanText_total: "\<exists>res. scanText v = Some res"
  by (cases v) (simp_all add: scanText_def scan_with_def for_patterns_closed [OF PATTERNS_safe])

definition scan :: "jsstring \<Rightarrow> (category \<rightharpoonup> nat)" where
  \<comment> \<open>\<open>scanText(text)\<close> on the text of the input\<close>
  "scan t = (case scanText (JString t) of Some res \<Rightarrow> res | None \<Rightarrow> Map.empty)"

definition trim :: "jsstring \<Rightarrow> jsstring" where
  \<comment> \<open>\<open>text.trim()\<close>: white space and line terminators off both ends\<close>
  "trim t = rev (dropWhile is_space (rev (dropWhile is_space t)))"

record element =
  el_id :: nat
  isSendButton :: bool
  inBanner :: bool

record key_event =
  key :: string
  ctrlKey :: bool
  metaKey :: bool
  shiftKey :: bool

record page =
  promptInput :: bool
  inputText :: jsstring
  focusInInput :: bool
  sendQuery :: "element option"

datatype origin = ByClick | ByKey bool bool | Proactive

text \<open>
  What runs in a later turn: the async function of the keydown listener from
  \<open>await getStorage()\<close> on, with the text and the modifier keys it captured;
  \<open>handlePotentialSubmit\<close> from its \<open>await getStorage()\<close> on; the click listener after
  \<open>await handlePotentialSubmit\<close> resolved to true; the timer of the keyboard replay;
  the scan that the paste and input listeners of the prompt input start, once
  \<open>getStorage()\<close> has resolved and their timer has fired.
\<close>

datatype task =
    KeydownAsync jsstring bool bool
  | SubmitAsync element
  | ClickResume
  | RetryTimer
  | ProactiveScan

datatype replayed = ReplayClick element | ReplayKeydown bool bool

datatype action =
    PreventDefault
  | StopPropagation
  | StopImmediatePropagation
  | SetAllowNextSend bool
  | Scan jsstring
  | ShowBanner "category \<rightharpoonup> nat"
  | HideBanner
  | IncrementSessionCounts "category \<rightharpoonup> nat"
  | Focus
  | Later task
  | Replay replayed "action list"

record guard =
  allowNextSend :: bool
  bannerEl :: "((category \<rightharpoonup> nat) \<times> origin) option"
  lastSendButton :: "element option"

type_synonym turn = "guard \<times> action list"

definition hideBanner :: "guard \<Rightarrow> turn" where
  "hideBanner g = (if bannerEl g \<noteq> None then (g\<lparr>bannerEl := None\<rparr>, [HideBanner]) else (g, []))"

definition showBanner :: "guard \<Rightarrow> (category \<rightharpoonup> nat) \<Rightarrow> origin \<Rightarrow> turn" where
  "showBanner g matches orig =
     (case hideBanner g of (g', tr) \<Rightarrow> (g'\<lparr>bannerEl := Some (matches, orig)\<rparr>, tr @ [ShowBanner matches]))"

definition click_listener :: "page \<Rightarrow> guard \<Rightarrow> element \<Rightarrow> turn" where
  "click_listener pg g target =
     (if allowNextSend g then (g\<lparr>allowNextSend := False\<rparr>, [SetAllowNextSend False])
      else if inBanner target then (g, [])
      else if \<not> isSendButton target then (g, [])
      else if \<not> promptInput pg then (g, [])
      else if trim (inputText pg) = [] then (g, [])
      else if scan (inputText pg) = Map.empty then (g, [Scan (inputText pg)])
      else (g, [Scan (inputText pg), Later (SubmitAsync target)]))"

definition handlePotentialSubmit :: "page \<Rightarrow> guard \<Rightarrow> bool \<Rightarrow> element \<Rightarrow> turn" where
  "handlePotentialSubmit pg g enabled clickTarget =
     (if \<not> enabled then (g, [])
      else if \<not> promptInput pg then (g, [])
      else if scan (inputText pg) = Map.empty then (g, [Scan (inputText pg)])
      else (case showBanner (g\<lparr>lastSendButton := Some clickTarget\<rparr>) (scan (inputText pg)) ByClick of
              (g', tr) \<Rightarrow> (g', Scan (inputText pg) # tr)))"

definition keydown_listener :: "page \<Rightarrow> guard \<Rightarrow> key_event \<Rightarrow> turn" where
  "keydown_listener pg g e =
     (if key e \<noteq> ''Enter'' then (g, [])
      else if \<not> (ctrlKey e \<or> metaKey e \<or> \<not> shiftKey e) then (g, [])
      else if \<not> promptInput pg \<or> \<not> focusInInput pg then (g, [])
      else if trim (inputText pg) = [] then (g, [])
      else (g, [PreventDefault, StopPropagation,
                Later (KeydownAsync (inputText pg) (ctrlKey e) (metaKey e))]))"

definition dispatch_enter :: "page \<Rightarrow> guard \<Rightarrow> bool \<Rightarrow> bool \<Rightarrow> turn" where
  "dispatch_enter pg g ctrl meta =
     (case keydown_listener pg g \<lparr>key = ''Enter'', ctrlKey = ctrl, metaKey = meta, shiftKey = False\<rparr> of
        (g', tr) \<Rightarrow> (g', [Replay (ReplayKeydown ctrl meta) tr]))"

definition click :: "page \<Rightarrow> guard \<Rightarrow> element \<Rightarrow> turn" where
  "click pg g el = (case click_listener pg g el of (g', tr) \<Rightarrow> (g', [Replay (ReplayClick el) tr]))"

definition keydown_async :: "page \<Rightarrow> guard \<Rightarrow> bool \<Rightarrow> jsstring \<Rightarrow> bool \<Rightarrow> bool \<Rightarrow> turn" where
  "keydown_async pg g enabled t ctrl meta =
     (if \<not> enabled then dispatch_enter pg g ctrl meta
      else if scan t = Map.empty
      then (case dispatch_enter pg g ctrl meta of (g', tr) \<Rightarrow> (g', Scan t # tr))
      else (case showBanner (g\<lparr>lastSendButton := None\<rparr>) (scan t) (ByKey ctrl meta) of
              (g', tr) \<Rightarrow> (g', Scan t # tr)))"

definition proactive_scan :: "page \<Rightarrow> guard \<Rightarrow> bool \<Rightarrow> turn" where
  "proactive_scan pg g enabled =
     (if \<not> enabled then (g, [])
      else if scan (inputText pg) = Map.empty then (g, [Scan (inputText pg)])
      else (case showBanner g (scan (inputText pg)) Proactive of
              (g', tr) \<Rightarrow> (g', Scan (inputText pg) # tr)))"

definition retry_timer :: "page \<Rightarrow> guard \<Rightarrow> turn" where
  "retry_timer pg g =
     (case sendQuery pg of
        None \<Rightarrow> (g, [])
      | Some btn \<Rightarrow> if trim (inputText pg) = [] then (g, []) else click pg g btn)"

definition onSendAnyway :: "page \<Rightarrow> guard \<Rightarrow> (category \<rightharpoonup> nat) \<Rightarrow> origin \<Rightarrow> turn" where
  "onSendAnyway pg g matches orig =
     (case orig of
        ByClick \<Rightarrow>
          (case (case lastSendButton g of
                   None \<Rightarrow> (g\<lparr>allowNextSend := True\<rparr>, [])
                 | Some b \<Rightarrow> click pg (g\<lparr>allowNextSend := True\<rparr>) b) of
             (g', tr) \<Rightarrow>
               (g', [IncrementSessionCounts matches, SetAllowNextSend True] @ tr @ [Later ClickResume]))
      | ByKey ctrl meta \<Rightarrow>
          (case dispatch_enter pg (g\<lparr>allowNextSend := True\<rparr>) ctrl meta of
             (g', tr) \<Rightarrow>
               (g', [IncrementSessionCounts matches, SetAllowNextSend True] @ tr @ [Later RetryTimer]))
      | Proactive \<Rightarrow>
          (case hideBanner (g\<lparr>allowNextSend := True\<rparr>) of
             (g', tr) \<Rightarrow> (g', [IncrementSessionCounts matches, SetAllowNextSend True] @ tr)))"

definition onEditFirst :: "guard \<Rightarrow> origin \<Rightarrow> turn" where
  "onEditFirst g orig =
     (case orig of
        ByClick \<Rightarrow> (g, [Focus, Later ClickResume])
      | ByKey ctrl meta \<Rightarrow> (g, [Focus])
      | Proactive \<Rightarrow> (case hideBanner g of (g', tr) \<Rightarrow> (g', Focus # tr)))"

definition banner_button :: element where
  "banner_button = \<lparr>el_id = 0, isSendButton = True, inBanner = True\<rparr>"

definition send_anyway_button :: "page \<Rightarrow> guard \<Rightarrow> turn" where
  "send_anyway_button pg g =
     (case bannerEl g of
        None \<Rightarrow> (g, [])
      | Some (matches, orig) \<Rightarrow>
          (case click_listener pg g banner_button of (g1, tr1) \<Rightarrow>
           case onSendAnyway pg g1 matches orig of (g2, tr2) \<Rightarrow>
           case hideBanner g2 of (g3, tr3) \<Rightarrow> (g3, tr1 @ tr2 @ tr3)))"

definition edit_first_button :: "page \<Rightarrow> guard \<Rightarrow> turn" where
  "edit_first_button pg g =
     (case bannerEl g of
        None \<Rightarrow> (g, [])
      | Some (matches, orig) \<Rightarrow>
          (case click_listener pg g banner_button of (g1, tr1) \<Rightarrow>
           case onEditFirst g1 orig of (g2, tr2) \<Rightarrow>
           case hideBanner g2 of (g3, tr3) \<Rightarrow> (g3, tr1 @ tr2 @ tr3)))"

definition click_resume :: "action list" where
  "click_resume = [PreventDefault, StopPropagation, StopImmediatePropagation]"

subsection \<open>Runs of turns\<close>

datatype event = Click element | Keydown key_event | Resume task bool

definition turn_of :: "page \<Rightarrow> guard \<Rightarrow> event \<Rightarrow> turn" where
  "turn_of pg g ev =
     (case ev of
        Click el \<Rightarrow> click_listener pg g el
      | Keydown e \<Rightarrow> keydown_listener pg g e
      | Resume (KeydownAsync t ctrl meta) enabled \<Rightarrow> keydown_async pg g enabled t ctrl meta
      | Resume (SubmitAsync el) enabled \<Rightarrow> handlePotentialSubmit pg g enabled el
      | Resume ClickResume enabled \<Rightarrow> (g, click_resume)
      | Resume RetryTimer enabled \<Rightarrow> retry_timer pg g
      | Resume ProactiveScan enabled \<Rightarrow> proactive_scan pg g enabled)"

fun run :: "guard \<Rightarrow> (page \<times> event) list \<Rightarrow> turn" where
  "run g [] = (g, [])"
| "run g ((pg, ev) # evs) =
     (case turn_of pg g ev of (g', tr) \<Rightarrow>
      case run g' evs of (g'', tr') \<Rightarrow> (g'', tr @ tr'))"

fun flag_writes :: "action \<Rightarrow> bool list" where
  "flag_writes (SetAllowNextSend b) = [b]"
| "flag_writes (Replay k tr) = concat (map flag_writes tr)"
| "flag_writes a = []"

definition writes :: "action list \<Rightarrow> bool list" where
  "writes tr = concat (map flag_writes tr)"

fun is_replay :: "action \<Rightarrow> bool" where
  "is_replay (Replay k tr) = True"
| "is_replay a = False"

fun is_later :: "action \<Rightarrow> bool" where
  "is_later (Later t) = True"
| "is_later a = False"

lemma writes_simps [simp]:
  "writes [] = []" "writes (a # tr) = flag_writes a @ writes tr" "writes (tr @ tr') = writes tr @ writes tr'"
  by (simp_all add: writes_def)

lemma flag_writes_Replay [simp]: "flag_writes (Replay k tr) = writes tr"
  by (simp add: writes_def)

declare flag_writes.simps(2) [simp del]

lemma hideBanner_flag: "hideBanner g = (g', tr) \<Longrightarrow> allowNextSend g' = allowNextSend g \<and> writes tr = []"
  by (auto simp: hideBanner_def split: if_splits)

lemma showBanner_flag: "showBanner g ms orig = (g', tr) \<Longrightarrow> allowNextSend g' = allowNextSend g \<and> writes tr = []"
  by (auto simp: showBanner_def hideBanner_def split: if_splits)

lemma keydown_listener_flag: "keydown_listener pg g e = (g', tr) \<Longrightarrow> g' = g \<and> writes tr = []"
  by (auto simp: keydown_listener_def split: if_splits)

lemma click_listener_flag:
  "click_listener pg g el = (g', tr) \<Longrightarrow>
     \<not> allowNextSend g' \<and> writes tr = (if allowNextSend g then [False] else [])"
  by (auto simp: click_listener_def split: if_splits)

lemma dispatch_enter_flag: "dispatch_enter pg g c k = (g', tr) \<Longrightarrow> g' = g \<and> writes tr = []"
  by (auto simp: dispatch_enter_def split: prod.splits dest: keydown_listener_flag)

lemma click_flag:
  "click pg g el = (g', tr) \<Longrightarrow> \<not> allowNextSend g' \<and> writes tr = (if allowNextSend g then [False] else [])"
  by (auto simp: click_def split: prod.splits dest!: click_listener_flag)

lemma turn_of_flag:
  assumes "turn_of pg g ev = (g', tr)"
  shows "(allowNextSend g' \<longrightarrow> allowNextSend g)
     \<and> (writes tr = [] \<and> allowNextSend g' = allowNextSend g
        \<or> writes tr = [False] \<and> allowNextSend g \<and> \<not> allowNextSend g')"
proof (cases ev)
  case (Click el)
  with assms show ?thesis by (auto simp: turn_of_def dest!: click_listener_flag split: if_splits)
next
  case (Keydown e)
  with assms show ?thesis by (auto simp: turn_of_def dest!: keydown_listener_flag)
next
  case (Resume t enabled)
  show ?thesis
  proof (cases t)
    case (KeydownAsync x c m)
    with assms Resume show ?thesis
      by (auto simp: turn_of_def keydown_async_def split: if_splits prod.splits
          dest!: dispatch_enter_flag showBanner_flag)
  next
    case (SubmitAsync el)
    with assms Resume show ?thesis
      by (auto simp: turn_of_def handlePotentialSubmit_def split: if_splits prod.splits
          dest!: showBanner_flag)
  next
    case ClickResume
    with assms Resume show ?thesis by (auto simp: turn_of_def click_resume_def)
  next
    case RetryTimer
    with assms Resume show ?thesis
      by (auto simp: turn_of_def retry_timer_def split: option.splits if_splits dest!: click_flag)
  next
    case ProactiveScan
    with assms Resume show ?thesis
      by (auto simp: turn_of_def proactive_scan_def split: if_splits prod.splits
          dest!: showBanner_flag)
  qed
qed

lemma run_flag:
  "run g evs = (g', tr) \<Longrightarrow>
     True \<notin> set (writes tr) \<and> length (writes tr) \<le> (if allowNextSend g then 1 else 0)
     \<and> (writes tr \<noteq> [] \<longrightarrow> \<not> allowNextSend g') \<and> (allowNextSend g' \<longrightarrow> allowNextSend g)"
proof (induction evs arbitrary: g g' tr)
  case Nil
  then show ?case by simp
next
  case (Cons pe evs)
  obtain pg ev where pe: "pe = (pg, ev)" by (cases pe)
  obtain g1 tr1 where t1: "turn_of pg g ev = (g1, tr1)" by (cases "turn_of pg g ev")
  obtain g2 tr2 where t2: "run g1 evs = (g2, tr2)" by (cases "run g1 evs")
  from Cons.prems pe t1 t2 have e: "g' = g2" "tr = tr1 @ tr2" by simp_all
  from turn_of_flag [OF t1] Cons.IH [OF t2] show ?case
    unfolding e by (auto split: if_splits)
qed

subsection \<open>A sample page\<close>

definition enter_key :: key_event where
  "enter_key = \<lparr>key = ''Enter'', ctrlKey = False, metaKey = False, shiftKey = False\<rparr>"

definition send_button :: element where
  "send_button = \<lparr>el_id = 1, isSendButton = True, inBanner = False\<rparr>"

definition chat_page :: "bool \<Rightarrow> page" where
  "chat_page focused = \<lparr>promptInput = True, inputText = str ''password: hunter2345'',
     focusInInput = focused, sendQuery = Some send_button\<rparr>"

definition idle :: guard where
  "idle = \<lparr>allowNextSend = False, bannerEl = None, lastSendButton = None\<rparr>"

lemma chat_text_not_blank: "trim (str ''password: hunter2345'') \<noteq> []"
  by (simp add: trim_def str_def is_space_def)

lemma chat_text_scan: "scan (str ''password: hunter2345'') = [PASSWORD \<mapsto> 2]"
  by (simp add: scan_def scan_defs regex_defs class_defs) (simp add: numeral_2_eq_2)

lemma chat_text_sensitive: "scan (str ''password: hunter2345'') \<noteq> Map.empty"
  by (simp add: chat_text_scan)

subsection \<open>The keyboard path cancels the event in its own turn\<close>

text \<open>
  C1. On Enter without Shift, or with Ctrl or Cmd, while the prompt input has the focus
  and its text is not blank, the keydown listener cancels the event's default effect
  (and its propagation) synchronously: these are the first entries of the trace of the
  listener's turn, before the point where the turn ends and the async function awaits
  \<open>getStorage()\<close>. The later turn, which reads the enabled flag and scans, does not cancel
  the event.
\<close>

theorem keydown_cancels_synchronously:
  assumes "key e = ''Enter''" and "ctrlKey e \<or> metaKey e \<or> \<not> shiftKey e"
    and "promptInput pg" and "focusInInput pg" and "trim (inputText pg) \<noteq> []"
  shows "keydown_listener pg g e =
      (g, [PreventDefault, StopPropagation, Later (KeydownAsync (inputText pg) (ctrlKey e) (metaKey e))])
    \<and> takeWhile (\<lambda>a. \<not> is_later a) (snd (keydown_listener pg g e)) = [PreventDefault, StopPropagation]
    \<and> PreventDefault \<notin> set (snd (keydown_async pg g' enabled t c k))"
proof -
  have "PreventDefault \<notin> set (snd (keydown_async pg g' enabled t c k))"
    by (auto simp: keydown_async_def dispatch_enter_def showBanner_def hideBanner_def
        split: prod.splits if_splits)
  with assms show ?thesis by (auto simp: keydown_listener_def)
qed

theorem keydown_cancels_synchronously_witness:
  "keydown_listener (chat_page True) idle enter_key =
      (idle, [PreventDefault, StopPropagation, Later (KeydownAsync (str ''password: hunter2345'') False False)])"
  using keydown_cancels_synchronously [of enter_key "chat_page True" idle]
  by (simp add: enter_key_def chat_page_def chat_text_not_blank)


subsection \<open>The bypass is used once\<close>

text \<open>
  C7. Over any sequence of triggers and resumed tasks with no confirm-send decision in
  it, \<open>allowNextSend\<close> is never set, and it is cleared at most once, and only when it was
  set at the start; once cleared it stays cleared. The click that finds the bypass armed
  passes untouched: no scan, no cancellation, the flag cleared. A keydown never changes
  the guard. With the bypass cleared, a click on a send-like control over a prompt input
  with text is scanned again, and intercepted when the scan finds something.
\<close>

theorem bypass_consumed_once:
  "(run g evs = (g', tr) \<longrightarrow>
       True \<notin> set (writes tr) \<and> length (writes tr) \<le> (if allowNextSend g then 1 else 0)
       \<and> (writes tr \<noteq> [] \<longrightarrow> \<not> allowNextSend g'))
   \<and> (allowNextSend g \<longrightarrow>
       click_listener pg g el = (g\<lparr>allowNextSend := False\<rparr>, [SetAllowNextSend False]))
   \<and> fst (keydown_listener pg g e) = g
   \<and> (\<not> allowNextSend g \<and> isSendButton el \<and> \<not> inBanner el \<and> promptInput pg
        \<and> trim (inputText pg) \<noteq> [] \<longrightarrow>
       click_listener pg g el =
         (g, Scan (inputText pg) #
             (if scan (inputText pg) = Map.empty then [] else [Later (SubmitAsync el)])))"
  using run_flag [of g evs g' tr]
  by (auto simp: click_listener_def keydown_listener_def)

theorem bypass_consumed_once_witness:
  "run (idle\<lparr>allowNextSend := True\<rparr>)
      [(chat_page True, Click send_button), (chat_page True, Click send_button)]
    = (idle, [SetAllowNextSend False, Scan (str ''password: hunter2345''), Later (SubmitAsync send_button)])
   \<and> writes [SetAllowNextSend False, Scan (str ''password: hunter2345''), Later (SubmitAsync send_button)]
       = [False]"
proof -
  let ?evs = "[(chat_page True, Click send_button), (chat_page True, Click send_button)]"
  have r: "run (idle\<lparr>allowNextSend := True\<rparr>) ?evs
    = (idle, [SetAllowNextSend False, Scan (str ''password: hunter2345''), Later (SubmitAsync send_button)])"
    by (simp add: turn_of_def click_listener_def idle_def chat_page_def send_button_def
        chat_text_not_blank chat_text_sensitive)
  from bypass_consumed_once [of "idle\<lparr>allowNextSend := True\<rparr>" ?evs idle
      "[SetAllowNextSend False, Scan (str ''password: hunter2345''), Later (SubmitAsync send_button)]"
      "chat_page True" send_button enter_key] r
  show ?thesis by simp
qed

subsection \<open>What confirm-send replays\<close>

text \<open>
  C2, as amended. When the banner of an intercepted click is confirmed, the turn replays
  exactly one click, on the recorded send control, and the click listener lets it
  through: it clears the bypass and does nothing else. When the banner of an intercepted
  keyboard chord is confirmed, the turn dispatches exactly one Enter keydown with the
  chord's modifier keys, leaves the bypass armed and starts the retry timer. The retry
  clicks a send button when one is found and the input still has text that is not blank,
  and does nothing otherwise; a retry click that finds the bypass armed is let through
  without a scan.
\<close>

theorem confirm_send_replays:
  "(bannerEl g = Some (matches, ByClick) \<and> lastSendButton g = Some b \<longrightarrow>
      send_anyway_button pg g =
        (g\<lparr>allowNextSend := False, bannerEl := None\<rparr>,
         (if allowNextSend g then [SetAllowNextSend False] else [])
         @ [IncrementSessionCounts matches, SetAllowNextSend True,
            Replay (ReplayClick b) [SetAllowNextSend False], Later ClickResume, HideBanner]))
   \<and> (bannerEl g = Some (matches, ByKey c k) \<longrightarrow>
      (\<exists>nested. send_anyway_button pg g =
        (g\<lparr>allowNextSend := True, bannerEl := None\<rparr>,
         (if allowNextSend g then [SetAllowNextSend False] else [])
         @ [IncrementSessionCounts matches, SetAllowNextSend True,
            Replay (ReplayKeydown c k) nested, Later RetryTimer, HideBanner])))
   \<and> (allowNextSend g \<longrightarrow>
      retry_timer pg g =
        (case sendQuery pg of
           None \<Rightarrow> (g, [])
         | Some btn \<Rightarrow>
             if trim (inputText pg) = [] then (g, [])
             else (g\<lparr>allowNextSend := False\<rparr>, [Replay (ReplayClick btn) [SetAllowNextSend False]])))
   \<and> snd (retry_timer pg g) =
        (case sendQuery pg of
           None \<Rightarrow> []
         | Some btn \<Rightarrow>
             if trim (inputText pg) = [] then []
             else [Replay (ReplayClick btn) (snd (click_listener pg g btn))])"
  by (auto simp: send_anyway_button_def onSendAnyway_def click_listener_def banner_button_def
      click_def dispatch_enter_def keydown_listener_def hideBanner_def retry_timer_def
      split: option.splits)


definition click_pending :: guard where
  "click_pending = fst (handlePotentialSubmit (chat_page False) idle True send_button)"

definition key_pending :: guard where
  "key_pending = fst (keydown_async (chat_page True) idle True (str ''password: hunter2345'') False False)"

lemma click_pending_eq:
  "click_pending = \<lparr>allowNextSend = False, bannerEl = Some ([PASSWORD \<mapsto> 2], ByClick),
     lastSendButton = Some send_button\<rparr>"
  by (simp add: click_pending_def handlePotentialSubmit_def chat_page_def idle_def showBanner_def
      hideBanner_def chat_text_sensitive chat_text_scan)

lemma key_pending_eq:
  "key_pending = \<lparr>allowNextSend = False, bannerEl = Some ([PASSWORD \<mapsto> 2], ByKey False False),
     lastSendButton = None\<rparr>"
  by (simp add: key_pending_def keydown_async_def idle_def showBanner_def hideBanner_def
      chat_text_sensitive chat_text_scan)

theorem confirm_send_replays_witness:
  "send_anyway_button (chat_page False) click_pending =
     (idle\<lparr>lastSendButton := Some send_button\<rparr>,
      [IncrementSessionCounts [PASSWORD \<mapsto> 2], SetAllowNextSend True,
       Replay (ReplayClick send_button) [SetAllowNextSend False], Later ClickResume, HideBanner])"
  using confirm_send_replays [of click_pending "[PASSWORD \<mapsto> 2]" send_button "chat_page False"]
  by (simp add: click_pending_eq idle_def)

text \<open>
  C2 as stated fails on the keyboard path: with a send button on the page and the text
  still in the input when the retry timer fires, confirm-send causes two replayed
  actions, the keydown and then the click.
\<close>

theorem confirm_send_two_replays_counterexample:
  "filter is_replay
     (snd (send_anyway_button (chat_page False) key_pending)
      @ snd (retry_timer (chat_page False) (fst (send_anyway_button (chat_page False) key_pending))))
   = [Replay (ReplayKeydown False False) [],
      Replay (ReplayClick send_button) [SetAllowNextSend False]]"
  by (simp add: key_pending_eq send_anyway_button_def onSendAnyway_def click_listener_def
      banner_button_def dispatch_enter_def keydown_listener_def hideBanner_def retry_timer_def
      click_def chat_page_def chat_text_not_blank)

text \<open>
  The keydown listener does not look at \<open>allowNextSend\<close>: when the focus is still in the
  input as the replayed keydown is dispatched, the listener cancels the replay and
  starts another scan.
\<close>

lemma keydown_replay_blocked_when_focused:
  "snd (send_anyway_button (chat_page True) key_pending) =
     [IncrementSessionCounts [PASSWORD \<mapsto> 2], SetAllowNextSend True,
      Replay (ReplayKeydown False False)
        [PreventDefault, StopPropagation, Later (KeydownAsync (str ''password: hunter2345'') False False)],
      Later RetryTimer, HideBanner]"
  by (simp add: key_pending_eq send_anyway_button_def onSendAnyway_def click_listener_def
      banner_button_def dispatch_enter_def keydown_listener_def hideBanner_def
      chat_page_def chat_text_not_blank)

section \<open>Persistence\<close>

text \<open>
  \<open>getStorage\<close>, \<open>setStorage\<close>, \<open>setSessionCounts\<close> and \<open>incrementSessionCounts\<close> of the
  content script (\<open>loadState\<close> and \<open>setStorage\<close> of the popup are the same code). The
  world they run in is the storage API, absent or present, and the object
  \<open>STORAGE_DEFAULTS\<close>. Of the API the model keeps the stored enabled flag, the stored
  counts (in the session area, or the local one when there is no session area), taken
  to be what the script writes, and what a call does: a read or a write either succeeds
  or throws an error with a message, the same for the calls of one kind.

  \<open>STORAGE_DEFAULTS\<close> is one object, created once; its \<open>sessionCounts\<close> is one object
  too, and \<open>getStorage\<close> returns the defaults themselves, not a copy. So the settings
  that \<open>getStorage\<close> returns hold a reference: to the counts object of the defaults, or
  to a fresh object read from the store. An operation returns the error it throws to its
  caller, if any.
\<close>

fun includes_str :: "jsstring \<Rightarrow> jsstring \<Rightarrow> bool" where
  "includes_str [] sub = (sub = [])"
| "includes_str (c # cs) sub = (take (length sub) (c # cs) = sub \<or> includes_str cs sub)"

definition context_invalidated :: "jsstring \<Rightarrow> bool" where
  "context_invalidated msg = (includes_str msg (str ''Extension context invalidated'')
     \<or> includes_str msg (str ''context invalidated''))"

record storage_api =
  stored_enabled :: "bool option"
  stored_counts :: "(category \<rightharpoonup> nat) option"
  get_throws :: "jsstring option"
  set_throws :: "jsstring option"

record world =
  storage :: "storage_api option"
  default_counts :: "category \<rightharpoonup> nat"

datatype counts_ref = DefaultCounts | FreshCounts "category \<rightharpoonup> nat"

record settings =
  enabled :: bool
  sessionCounts :: counts_ref

definition STORAGE_DEFAULTS :: settings where
  "STORAGE_DEFAULTS = \<lparr>enabled = True, sessionCounts = DefaultCounts\<rparr>"

definition counts_at :: "world \<Rightarrow> counts_ref \<Rightarrow> (category \<rightharpoonup> nat)" where
  "counts_at w r = (case r of DefaultCounts \<Rightarrow> default_counts w | FreshCounts c \<Rightarrow> c)"

definition getStorage :: "world \<Rightarrow> jsstring + settings" where
  "getStorage w =
     (case storage w of
        None \<Rightarrow> Inr STORAGE_DEFAULTS
      | Some api \<Rightarrow>
          (case get_throws api of
             Some msg \<Rightarrow> if context_invalidated msg then Inr STORAGE_DEFAULTS else Inl msg
           | None \<Rightarrow>
               Inr \<lparr>enabled = (stored_enabled api \<noteq> Some False),
                    sessionCounts = FreshCounts (case stored_counts api of None \<Rightarrow> Map.empty | Some c \<Rightarrow> c)\<rparr>))"

definition setStorage :: "world \<Rightarrow> bool \<Rightarrow> world \<times> jsstring option" where
  "setStorage w en =
     (case storage w of
        None \<Rightarrow> (w, None)
      | Some api \<Rightarrow>
          (case set_throws api of
             Some msg \<Rightarrow> if context_invalidated msg then (w, None) else (w, Some msg)
           | None \<Rightarrow> (w\<lparr>storage := Some (api\<lparr>stored_enabled := Some en\<rparr>)\<rparr>, None)))"

definition add_counts :: "(category \<rightharpoonup> nat) \<Rightarrow> (category \<rightharpoonup> nat) \<Rightarrow> (category \<rightharpoonup> nat)" where
  "add_counts cur counts =
     (\<lambda>cat. case counts cat of
              None \<Rightarrow> cur cat
            | Some n \<Rightarrow> Some ((case cur cat of None \<Rightarrow> 0 | Some k \<Rightarrow> k) + n))"

definition write_counts :: "world \<Rightarrow> counts_ref \<Rightarrow> (category \<rightharpoonup> nat) \<Rightarrow> world" where
  "write_counts w r c = (case r of DefaultCounts \<Rightarrow> w\<lparr>default_counts := c\<rparr> | FreshCounts _ \<Rightarrow> w)"

definition setSessionCounts :: "world \<Rightarrow> (category \<rightharpoonup> nat) \<Rightarrow> world \<times> jsstring option" where
  "setSessionCounts w counts =
     (case storage w of
        None \<Rightarrow> (w, None)
      | Some api \<Rightarrow>
          (case getStorage w of
             Inl msg \<Rightarrow> if context_invalidated msg then (w, None) else (w, Some msg)
           | Inr st \<Rightarrow>
               (let new = add_counts (counts_at w (sessionCounts st)) counts;
                    w1 = write_counts w (sessionCounts st) new
                in case set_throws api of
                     Some msg \<Rightarrow> if context_invalidated msg then (w1, None) else (w1, Some msg)
                   | None \<Rightarrow> (w1\<lparr>storage := Some (api\<lparr>stored_counts := Some new\<rparr>)\<rparr>, None))))"

definition incrementSessionCounts :: "world \<Rightarrow> (category \<rightharpoonup> nat) \<Rightarrow> world \<times> jsstring option" where
  "incrementSessionCounts w counts =
     (case setSessionCounts w counts of
        (w', None) \<Rightarrow> (w', None)
      | (w', Some msg) \<Rightarrow> if context_invalidated msg then (w', None) else (w', Some msg))"

subsection \<open>A context that has been invalidated\<close>

definition torn_down :: storage_api where
  "torn_down = \<lparr>stored_enabled = None, stored_counts = None,
     get_throws = Some (str ''Extension context invalidated.''),
     set_throws = Some (str ''Extension context invalidated.'')\<rparr>"

definition script_start :: world where
  "script_start = \<lparr>storage = Some torn_down, default_counts = Map.empty\<rparr>"

lemma torn_down_message: "context_invalidated (str ''Extension context invalidated.'')"
  by (simp add: context_invalidated_def str_def)

text \<open>
  C8. Every persistence operation is to fall back to a safe default when the storage API
  is absent or a call fails with a context-invalidated error: the enabled flag read as
  true, the session counts read as an empty mapping, writes ending without an error.
  The code misses this for the counts. With the API present and every call throwing
  \<open>Extension context invalidated.\<close>, \<open>incrementSessionCounts\<close> ends without an error,
  but on its way \<open>setSessionCounts\<close> has added the counts to the object it got from
  \<open>getStorage\<close>, which is the counts object of \<open>STORAGE_DEFAULTS\<close>: the next
  \<open>getStorage\<close> returns session counts that are not empty.
\<close>

theorem defaults_polluted_by_failed_write:
  "snd (incrementSessionCounts script_start [PASSWORD \<mapsto> 1]) = None
   \<and> map_sum id (\<lambda>st. counts_at (fst (incrementSessionCounts script_start [PASSWORD \<mapsto> 1])) (sessionCounts st))
        (getStorage (fst (incrementSessionCounts script_start [PASSWORD \<mapsto> 1])))
      = Inr [PASSWORD \<mapsto> 1]"
  by (simp add: incrementSessionCounts_def setSessionCounts_def getStorage_def script_start_def
      torn_down_def torn_down_message STORAGE_DEFAULTS_def counts_at_def write_counts_def
      add_counts_def fun_eq_iff)

text \<open>
  What does hold: with the API absent, or its calls throwing a context-invalidated error,
  no operation passes an error to its caller, the enabled flag is read as true, and the
  counts read are those of the defaults object, empty as long as no failed write has
  touched it.
\<close>

lemma persistence_safe_while_defaults_untouched:
  assumes "storage w = None \<or> (\<exists>api msg. storage w = Some api \<and> get_throws api = Some msg
             \<and> set_throws api = Some msg \<and> context_invalidated msg)"
  shows "\<exists>st. getStorage w = Inr st \<and> enabled st
           \<and> counts_at w (sessionCounts st) = default_counts w"
    and "setStorage w en = (w, None)"
    and "snd (setSessionCounts w counts) = None"
    and "snd (incrementSessionCounts w counts) = None"
  using assms
  by (auto simp: getStorage_def setStorage_def setSessionCounts_def incrementSessionCounts_def
      STORAGE_DEFAULTS_def counts_at_def Let_def split: option.splits)

section \<open>The popup: renderCounts\<close>

text \<open>
  A stored number is a double; the model takes a finite one as the rational it is, and
  keeps the three values that are not finite. Differences of doubles round, but never
  change sign, which is all the comparison function of the sort uses. The sort is that
  of \<open>Array.prototype.sort\<close>: stable, \<open>b\<close> before \<open>a\<close> exactly where the comparison
  function is positive. The rendering is the list of the items, each the category and
  \<open>Math.floor\<close> of its count, in the order of the markup.
\<close>

definition VALID_CATEGORIES :: "jsstring list" where
  "VALID_CATEGORIES = map str
     [''API keys'', ''Private keys'', ''Passwords'', ''Credit cards'', ''Social Security Numbers'',
      ''Bulk email addresses'', ''Internal IP addresses'', ''JWT tokens'', ''.env file contents'',
      ''Connection strings'']"

fun js_sub :: "js_number \<Rightarrow> js_number \<Rightarrow> js_number" where
  "js_sub (Num a) (Num b) = Num (a - b)"
| "js_sub (Num a) Infinity = NegInfinity"
| "js_sub (Num a) NegInfinity = Infinity"
| "js_sub Infinity (Num b) = Infinity"
| "js_sub Infinity NegInfinity = Infinity"
| "js_sub NegInfinity (Num b) = NegInfinity"
| "js_sub NegInfinity Infinity = NegInfinity"
| "js_sub a b = NaN"

fun js_gt0 :: "js_number \<Rightarrow> bool" where
  "js_gt0 (Num r) = (r > 0)"
| "js_gt0 Infinity = True"
| "js_gt0 a = False"

fun js_floor :: "js_number \<Rightarrow> js_number" where
  "js_floor (Num r) = Num (of_int \<lfloor>r\<rfloor>)"
| "js_floor a = a"

type_synonym entry = "jsstring \<times> js_number"

fun kept :: "jsstring \<times> js_value \<Rightarrow> entry option" where
  "kept (cat, JNumber n) = (if cat \<in> set VALID_CATEGORIES \<and> js_gt0 n then Some (cat, n) else None)"
| "kept (cat, v) = None"

fun insert_entry :: "entry \<Rightarrow> entry list \<Rightarrow> entry list" where
  "insert_entry a [] = [a]"
| "insert_entry a (b # bs) =
     (if js_gt0 (js_sub (snd b) (snd a)) then b # insert_entry a bs else a # b # bs)"

definition sort_entries :: "entry list \<Rightarrow> entry list" where
  "sort_entries es = foldr insert_entry es []"

datatype rendering = EmptyState | Items "entry list"

definition shown :: "(jsstring \<times> js_value) list \<Rightarrow> entry list" where
  "shown entries = sort_entries (List.map_filter kept entries)"

fun renderCounts :: "js_value \<Rightarrow> rendering" where
  "renderCounts (JObject entries) =
     (if List.map_filter kept entries = [] then EmptyState
      else Items (map (\<lambda>(cat, n). (cat, js_floor n)) (shown entries)))"
| "renderCounts v = EmptyState"

definition no_smaller :: "entry \<Rightarrow> entry \<Rightarrow> bool" where
  "no_smaller a b = (\<not> js_gt0 (js_sub (snd b) (snd a)))"

lemma no_smaller_total: "js_gt0 (snd a) \<Longrightarrow> js_gt0 (snd b) \<Longrightarrow> no_smaller a b \<or> no_smaller b a"
  by (cases "snd a"; cases "snd b") (auto simp: no_smaller_def)

lemma no_smaller_trans:
  "js_gt0 (snd a) \<Longrightarrow> js_gt0 (snd b) \<Longrightarrow> js_gt0 (snd c) \<Longrightarrow>
   no_smaller a b \<Longrightarrow> no_smaller b c \<Longrightarrow> no_smaller a c"
  by (cases "snd a"; cases "snd b"; cases "snd c") (auto simp: no_smaller_def)

lemma set_insert_entry: "set (insert_entry a bs) = insert a (set bs)"
  by (induction bs) auto

lemma mset_insert_entry: "mset (insert_entry a bs) = add_mset a (mset bs)"
  by (induction bs) auto

lemma sorted_insert_entry:
  assumes "sorted_wrt no_smaller bs" and "js_gt0 (snd a)" and "\<forall>b \<in> set bs. js_gt0 (snd b)"
  shows "sorted_wrt no_smaller (insert_entry a bs)"
  using assms
proof (induction bs)
  case Nil
  then show ?case by simp
next
  case (Cons b bs)
  show ?case
  proof (cases "js_gt0 (js_sub (snd b) (snd a))")
    case True
    then have ba: "no_smaller b a"
      using no_smaller_total [of b a] Cons.prems by (auto simp: no_smaller_def)
    from Cons have "sorted_wrt no_smaller (insert_entry a bs)" by simp
    with True ba Cons.prems show ?thesis by (auto simp: set_insert_entry)
  next
    case False
    then have ab: "no_smaller a b" by (simp add: no_smaller_def)
    have "no_smaller a c" if "c \<in> set bs" for c
      using that Cons.prems ab no_smaller_trans [of a b c] by auto
    with False ab Cons.prems show ?thesis by auto
  qed
qed

lemma mset_sort_entries: "mset (sort_entries es) = mset es"
  by (induction es) (simp_all add: sort_entries_def mset_insert_entry)

lemma sorted_sort_entries:
  "\<forall>e \<in> set es. js_gt0 (snd e) \<Longrightarrow> sorted_wrt no_smaller (sort_entries es)"
proof (induction es)
  case Nil
  show ?case by (simp add: sort_entries_def)
next
  case (Cons e es)
  have "set (sort_entries es) = set es"
    using mset_sort_entries [of es] by (metis set_mset_mset)
  with Cons show ?case
    using sorted_insert_entry [of "sort_entries es" e] by (simp add: sort_entries_def)
qed

lemma kept_Some: "kept (cat, v) = Some e \<longleftrightarrow>
    (\<exists>n. v = JNumber n \<and> e = (cat, n) \<and> cat \<in> set VALID_CATEGORIES \<and> js_gt0 n)"
  by (cases v) auto

lemma set_kept:
  "set (List.map_filter kept entries) =
     {(cat, n). (cat, JNumber n) \<in> set entries \<and> cat \<in> set VALID_CATEGORIES \<and> js_gt0 n}"
proof -
  have "set (List.map_filter kept entries) = {e. \<exists>x \<in> set entries. kept x = Some e}"
    by (auto simp: map_filter_def image_iff) force+
  also have "\<dots> = {(cat, n). (cat, JNumber n) \<in> set entries \<and> cat \<in> set VALID_CATEGORIES \<and> js_gt0 n}"
    by (auto simp: kept_Some) (metis kept_Some surj_pair)+
  finally show ?thesis .
qed

text \<open>
  C9. \<open>renderCounts\<close> shows exactly the entries of the persisted counts whose category is
  one of the ten of \<open>VALID_CATEGORIES\<close> and whose count is a number above 0: entries
  with another category, with a count that is not a number, or with a count that is not
  positive are left out, none is shown twice, and the entries shown are in descending
  order of count (no entry is followed by one with a larger count). With nothing to show,
  the empty state is rendered.
\<close>

theorem renderCounts_filters_and_sorts:
  "set (shown entries) =
      {(cat, n). (cat, JNumber n) \<in> set entries \<and> cat \<in> set VALID_CATEGORIES \<and> js_gt0 n}
   \<and> mset (shown entries) = mset (List.map_filter kept entries)
   \<and> sorted_wrt no_smaller (shown entries)
   \<and> renderCounts (JObject entries) =
       (if shown entries = [] then EmptyState
        else Items (map (\<lambda>(cat, n). (cat, js_floor n)) (shown entries)))"
proof -
  have m: "mset (shown entries) = mset (List.map_filter kept entries)"
    by (simp add: shown_def mset_sort_entries)
  then have s: "set (shown entries) = set (List.map_filter kept entries)"
    by (metis set_mset_mset)
  have pos: "\<forall>e \<in> set (List.map_filter kept entries). js_gt0 (snd e)"
    by (auto simp: set_kept)
  have e: "shown entries = [] \<longleftrightarrow> List.map_filter kept entries = []"
    using m by (metis mset_zero_iff)
  show ?thesis
    using m s e sorted_sort_entries [OF pos] by (simp add: set_kept shown_def)
qed

theorem renderCounts_filters_and_sorts_witness:
  "renderCounts (JObject
      [(str ''Passwords'', JNumber (Num 2)), (str ''Unknown'', JNumber (Num 5)),
       (str ''JWT tokens'', JString (str ''3'')), (str ''Credit cards'', JNumber (Num 0)),
       (str ''Private keys'', JNumber NaN), (str ''API keys'', JNumber (Num (15 / 2)))])
   = Items [(str ''API keys'', Num 7), (str ''Passwords'', Num 2)]"
proof -
  let ?entries = "[(str ''Passwords'', JNumber (Num 2)), (str ''Unknown'', JNumber (Num 5)),
       (str ''JWT tokens'', JString (str ''3'')), (str ''Credit cards'', JNumber (Num 0)),
       (str ''Private keys'', JNumber NaN), (str ''API keys'', JNumber (Num (15 / 2)))]"
  have sh: "shown ?entries = [(str ''API keys'', Num (15 / 2)), (str ''Passwords'', Num 2)]"
    by (simp add: shown_def sort_entries_def map_filter_def VALID_CATEGORIES_def str_def)
  have fl: "\<lfloor>15 / 2 :: rat\<rfloor> = 7"
    by (rule floor_unique) simp_all
  note t = renderCounts_filters_and_sorts [of ?entries, THEN conjunct2, THEN conjunct2, THEN conjunct2]
  have "renderCounts (JObject ?entries) =
      Items (map (\<lambda>(cat, n). (cat, js_floor n))
        [(str ''API keys'', Num (15 / 2)), (str ''Passwords'', Num 2)])"
    using t unfolding sh by (simp only: list.distinct if_False)
  also have "\<dots> = Items [(str ''API keys'', Num 7), (str ''Passwords'', Num 2)]"
    by (simp add: fl)
  finally show ?thesis .
qed

end
